theory Spec2Isabelle
  imports Complex_Main
begin

section \<open>JavaScript numbers\<close>

text \<open>
  The analysis routines of \<^verbatim>\<open>utils/audioUtils.ts\<close> compute with JavaScript numbers.
  A number is modelled as a real or one of the three special values of IEEE arithmetic.
  Finite arithmetic is exact (no rounding error and no overflow: the samples of a decoded
  buffer are 32-bit floats, whose squares and sums stay far inside the double range).
  The special values follow the IEEE rules that the program can meet: \<open>x / 0\<close> is an
  infinity of the sign of \<open>x\<close>, \<open>0 / 0\<close> is NaN, every comparison with NaN is false.
  The sign of a zero is not recorded: every divisor of the program is a count or a product
  of counts, so no negative zero ever reaches a division.
\<close>

datatype number = Fin real | PInf | NInf | NaN

fun sign_of :: "number \<Rightarrow> int" where
  "sign_of (Fin a) = (if a = 0 then 0 else if 0 < a then 1 else - 1)"
| "sign_of PInf = 1"
| "sign_of NInf = - 1"
| "sign_of NaN = 0"

definition inf_of_sign :: "int \<Rightarrow> number" where
  "inf_of_sign s = (if s = 0 then NaN else if 0 < s then PInf else NInf)"

instantiation number :: "{zero, plus, uminus, minus, times, inverse, ord}"
begin

definition zero_number :: number where
  "zero_number = Fin 0"

fun plus_number :: "number \<Rightarrow> number \<Rightarrow> number" where
  "plus_number NaN _ = NaN"
| "plus_number _ NaN = NaN"
| "plus_number (Fin a) (Fin b) = Fin (a + b)"
| "plus_number PInf NInf = NaN"
| "plus_number NInf PInf = NaN"
| "plus_number PInf _ = PInf"
| "plus_number _ PInf = PInf"
| "plus_number NInf _ = NInf"
| "plus_number _ NInf = NInf"

fun uminus_number :: "number \<Rightarrow> number" where
  "uminus_number (Fin a) = Fin (- a)"
| "uminus_number PInf = NInf"
| "uminus_number NInf = PInf"
| "uminus_number NaN = NaN"

definition minus_number :: "number \<Rightarrow> number \<Rightarrow> number" where
  "minus_number x y = x + (- y)"

fun times_number :: "number \<Rightarrow> number \<Rightarrow> number" where
  "times_number NaN _ = NaN"
| "times_number _ NaN = NaN"
| "times_number (Fin a) (Fin b) = Fin (a * b)"
| "times_number x y = inf_of_sign (sign_of x * sign_of y)"

fun divide_number :: "number \<Rightarrow> number \<Rightarrow> number" where
  "divide_number NaN _ = NaN"
| "divide_number _ NaN = NaN"
| "divide_number (Fin a) (Fin b) = (if b = 0 then inf_of_sign (sign_of (Fin a)) else Fin (a / b))"
| "divide_number (Fin a) _ = Fin 0"
| "divide_number PInf (Fin b) = (if b < 0 then NInf else PInf)"
| "divide_number NInf (Fin b) = (if b < 0 then PInf else NInf)"
| "divide_number _ _ = NaN"

fun inverse_number :: "number \<Rightarrow> number" where
  "inverse_number (Fin a) = (if a = 0 then PInf else Fin (1 / a))"
| "inverse_number PInf = Fin 0"
| "inverse_number NInf = Fin 0"
| "inverse_number NaN = NaN"

fun less_number :: "number \<Rightarrow> number \<Rightarrow> bool" where
  "less_number NaN _ = False"
| "less_number _ NaN = False"
| "less_number (Fin a) (Fin b) = (a < b)"
| "less_number PInf _ = False"
| "less_number _ PInf = True"
| "less_number _ NInf = False"
| "less_number NInf _ = True"

fun less_eq_number :: "number \<Rightarrow> number \<Rightarrow> bool" where
  "less_eq_number NaN _ = False"
| "less_eq_number _ NaN = False"
| "less_eq_number (Fin a) (Fin b) = (a \<le> b)"
| "less_eq_number _ PInf = True"
| "less_eq_number PInf _ = False"
| "less_eq_number NInf _ = True"
| "less_eq_number _ NInf = False"

instance ..

end

text \<open>\<^verbatim>\<open>Math.sqrt\<close>, \<^verbatim>\<open>Math.round\<close> (halves round towards plus infinity) and
  \<^verbatim>\<open>Math.floor\<close> of a quotient of two counts.\<close>

fun Math_sqrt :: "number \<Rightarrow> number" where
  "Math_sqrt (Fin a) = (if a < 0 then NaN else Fin (sqrt a))"
| "Math_sqrt PInf = PInf"
| "Math_sqrt NInf = NaN"
| "Math_sqrt NaN = NaN"

fun Math_round :: "number \<Rightarrow> number" where
  "Math_round (Fin a) = Fin (of_int \<lfloor>a + 1 / 2\<rfloor>)"
| "Math_round x = x"

definition num :: "nat \<Rightarrow> number" where
  "num n = Fin (real n)"

section \<open>The decoded buffer\<close>

text \<open>
  An \<^verbatim>\<open>AudioBuffer\<close> carries its sample rate (a whole number of samples per second)
  and its channels; \<^verbatim>\<open>getChannelData(0)\<close> is \<open>channel0\<close>, and \<^verbatim>\<open>audioBuffer.length\<close>
  is the number of sample frames, the length of every channel.
\<close>

record AudioBuffer =
  sampleRate :: nat
  channel0 :: "number list"
  otherChannels :: "number list list"

definition bufferLength_of :: "AudioBuffer \<Rightarrow> nat" where
  "bufferLength_of audioBuffer = length (channel0 audioBuffer)"

section \<open>detectPitch\<close>

definition maxLag_of :: "nat \<Rightarrow> nat" where
  "maxLag_of rate = nat \<lfloor>real rate / 60\<rfloor>"

definition comparisonSamples_of :: "nat \<Rightarrow> nat" where
  "comparisonSamples_of bufferLength = nat \<lfloor>real bufferLength / 3\<rfloor>"

text \<open>The inner loop: the correlation of the buffer with itself at one lag.\<close>

definition correlationAt :: "number list \<Rightarrow> nat \<Rightarrow> nat \<Rightarrow> number" where
  "correlationAt channelData bufferLength lag =
     fold (\<lambda>i correlation.
             if i + lag < bufferLength
             then correlation + channelData ! i * channelData ! (i + lag)
             else correlation)
          [0..<comparisonSamples_of bufferLength] (Fin 0)"

definition correlations_of :: "AudioBuffer \<Rightarrow> number list" where
  "correlations_of audioBuffer =
     map (correlationAt (channel0 audioBuffer) (bufferLength_of audioBuffer))
         [0..<maxLag_of (sampleRate audioBuffer)]"

text \<open>The \<^verbatim>\<open>while\<close> loop that advances \<open>firstDropIndex\<close>. The bound
  \<^verbatim>\<open>correlations.length - 1\<close> is \<open>-1\<close> for an empty array, hence the integers.\<close>

function firstDropLoop :: "number list \<Rightarrow> nat \<Rightarrow> nat" where
  "firstDropLoop correlations firstDropIndex =
     (if int firstDropIndex < int (length correlations) - 1
         \<and> correlations ! (firstDropIndex + 1) \<ge> correlations ! firstDropIndex
      then firstDropLoop correlations (firstDropIndex + 1)
      else firstDropIndex)"
  by pat_completeness auto
termination
  by (relation "measure (\<lambda>(correlations, firstDropIndex). length correlations - firstDropIndex)") auto

text \<open>The \<^verbatim>\<open>for\<close> loop that moves \<open>peakIndex\<close>; it reads \<open>correlations\<close> only at
  indices below \<^verbatim>\<open>correlations.length - 1\<close>.\<close>

definition peakLoop :: "number list \<Rightarrow> nat \<Rightarrow> nat" where
  "peakLoop correlations firstDropIndex =
     fold (\<lambda>i peakIndex. if correlations ! i > correlations ! peakIndex then i else peakIndex)
          [firstDropIndex + 1..<length correlations - 1] (firstDropIndex + 1)"

definition peakIndex_of :: "AudioBuffer \<Rightarrow> nat" where
  "peakIndex_of audioBuffer =
     (let correlations = correlations_of audioBuffer;
          firstDropIndex = firstDropLoop correlations 0
      in peakLoop correlations firstDropIndex)"

definition detectPitch :: "AudioBuffer \<Rightarrow> number" where
  "detectPitch audioBuffer =
     (let peakIndex = peakIndex_of audioBuffer;
          fundamentalFrequency = num (sampleRate audioBuffer) / num peakIndex
      in Math_round (fundamentalFrequency * Fin 10) / Fin 10)"

section \<open>estimateTempo\<close>

definition windowSize_of :: "nat \<Rightarrow> nat" where
  "windowSize_of rate = nat \<lfloor>real rate * (2 / 100)\<rfloor>"

text \<open>The inner loop over one window \<open>[i, limit)\<close> and the RMS pushed for it.\<close>

definition windowRms :: "number list \<Rightarrow> nat \<Rightarrow> nat \<Rightarrow> number" where
  "windowRms channelData i limit =
     (let sum = fold (\<lambda>j sum. sum + channelData ! j * channelData ! j) [i..<limit] (Fin 0)
      in Math_sqrt (sum / num (limit - i)))"

text \<open>The outer loop steps \<open>i\<close> by \<open>windowSize\<close>; with a window of zero samples it never
  leaves a non-empty buffer, so the loop is a partial function.\<close>

partial_function (option) energyLoop ::
  "number list \<Rightarrow> nat \<Rightarrow> nat \<Rightarrow> number list \<Rightarrow> number list option" where
  "energyLoop channelData windowSize i energyProfile =
     (if i < length channelData
      then energyLoop channelData windowSize (i + windowSize)
             (energyProfile @ [windowRms channelData i (min (i + windowSize) (length channelData))])
      else Some energyProfile)"

text \<open>\<open>calculateDynamicThreshold\<close>: \<open>sum_reduce\<close> is \<^verbatim>\<open>reduce((acc, val) => acc + val, 0)\<close>,
  and \<^verbatim>\<open>(val - mean) ** 2\<close> is the product of the difference with itself.\<close>

definition sum_reduce :: "number list \<Rightarrow> number" where
  "sum_reduce vals = fold (\<lambda>val acc. acc + val) vals (Fin 0)"

definition calculateDynamicThreshold :: "number list \<Rightarrow> number" where
  "calculateDynamicThreshold energyProfile =
     (let sum = sum_reduce energyProfile;
          mean = sum / num (length energyProfile);
          squaredDiffs = map (\<lambda>val. (val - mean) * (val - mean)) energyProfile;
          variance = sum_reduce squaredDiffs / num (length energyProfile);
          stdDev = Math_sqrt variance
      in mean + Fin (3 / 2) * stdDev)"

definition isOnset :: "number list \<Rightarrow> number \<Rightarrow> nat \<Rightarrow> bool" where
  "isOnset energyProfile threshold i \<longleftrightarrow>
     energyProfile ! i > threshold
     \<and> energyProfile ! i > energyProfile ! (i - 1)
     \<and> energyProfile ! i \<ge> energyProfile ! (i + 1)"

definition findOnsets :: "number list \<Rightarrow> number \<Rightarrow> nat list" where
  "findOnsets energyProfile threshold =
     fold (\<lambda>i onsets. if isOnset energyProfile threshold i then onsets @ [i] else onsets)
          [1..<length energyProfile - 1] []"

text \<open>The onsets are strictly increasing (lemma \<open>intervalsOf_exact\<close> below), so the
  difference of two consecutive onsets is a positive whole number.\<close>

definition intervalsOf :: "nat list \<Rightarrow> nat list" where
  "intervalsOf onsets = map (\<lambda>i. onsets ! i - onsets ! (i - 1)) [1..<length onsets]"

definition normalizedInterval :: "nat \<Rightarrow> nat" where
  "normalizedInterval interval = nat \<lfloor>real interval / 2 + 1 / 2\<rfloor> * 2"

text \<open>
  \<open>histogramBins\<close> is an object whose keys are whole numbers. \<^verbatim>\<open>Object.entries\<close>
  lists such keys in ascending numeric order, whatever the order of insertion, so the
  object is kept as an association list sorted by key. \<open>bump\<close> is
  \<^verbatim>\<open>bins[k] = (bins[k] || 0) + 1\<close>.
\<close>

fun bump :: "nat \<Rightarrow> (nat \<times> nat) list \<Rightarrow> (nat \<times> nat) list" where
  "bump k [] = [(k, 1)]"
| "bump k ((k', c) # rest) =
     (if k = k' then (k', c + 1) # rest
      else if k < k' then (k, 1) # (k', c) # rest
      else (k', c) # bump k rest)"

definition histogramOf :: "nat list \<Rightarrow> (nat \<times> nat) list" where
  "histogramOf intervals =
     fold (\<lambda>interval histogramBins. bump (normalizedInterval interval) histogramBins) intervals []"

text \<open>The scan of the entries; the state is \<open>(mostCommonInterval, maxCount)\<close>, and
  \<^verbatim>\<open>parseInt\<close> gives back the whole number that is the key.\<close>

definition scanStep :: "nat \<times> nat \<Rightarrow> nat \<times> nat \<Rightarrow> nat \<times> nat" where
  "scanStep entry leader =
     (if snd entry > snd leader then (fst entry, snd entry) else leader)"

definition mostCommonOf :: "(nat \<times> nat) list \<Rightarrow> nat \<times> nat" where
  "mostCommonOf entries = fold scanStep entries (0, 0)"

definition rawBpm :: "nat \<Rightarrow> nat \<Rightarrow> nat \<Rightarrow> number" where
  "rawBpm rate windowSize mostCommonInterval =
     (let secondsPerWindow = num windowSize / num rate;
          secondsPerBeat = num mostCommonInterval * secondsPerWindow
      in Fin 60 / secondsPerBeat)"

definition adjustRange :: "number \<Rightarrow> number" where
  "adjustRange bpm =
     (let bpm1 = (if bpm > Fin 240 then bpm / Fin 2 else bpm);
          bpm2 = (if bpm1 < Fin 60 then bpm1 * Fin 2 else bpm1)
      in bpm2)"

definition tempoOfProfile :: "nat \<Rightarrow> nat \<Rightarrow> number list \<Rightarrow> number" where
  "tempoOfProfile rate windowSize energyProfile =
     (let threshold = calculateDynamicThreshold energyProfile;
          onsets = findOnsets energyProfile threshold;
          intervals = intervalsOf onsets;
          histogramBins = histogramOf intervals;
          mostCommonInterval = fst (mostCommonOf histogramBins);
          bpm = rawBpm rate windowSize mostCommonInterval
      in Math_round (adjustRange bpm))"

definition energyProfile_of :: "AudioBuffer \<Rightarrow> number list option" where
  "energyProfile_of audioBuffer =
     energyLoop (channel0 audioBuffer) (windowSize_of (sampleRate audioBuffer)) 0 []"

definition estimateTempo :: "AudioBuffer \<Rightarrow> number option" where
  "estimateTempo audioBuffer =
     (case energyProfile_of audioBuffer of
        None \<Rightarrow> None
      | Some energyProfile \<Rightarrow>
          Some (tempoOfProfile (sampleRate audioBuffer)
                  (windowSize_of (sampleRate audioBuffer)) energyProfile))"

section \<open>The peak search as the specification words it\<close>

text \<open>
  For comparison with \<open>firstDropLoop\<close> and \<open>peakLoop\<close>: the specification (section 4.1,
  steps 3 to 5) walks the correlations from lag 0 forward while they are non-increasing,
  calls the lag where the walk stops the first drop, and selects the lag of the maximum
  from the first drop onward.
\<close>

function specFirstDrop :: "number list \<Rightarrow> nat \<Rightarrow> nat" where
  "specFirstDrop correlations lag =
     (if lag + 1 < length correlations \<and> correlations ! (lag + 1) \<le> correlations ! lag
      then specFirstDrop correlations (lag + 1)
      else lag)"
  by pat_completeness auto
termination
  by (relation "measure (\<lambda>(correlations, lag). length correlations - lag)") auto

definition specPeak :: "number list \<Rightarrow> nat \<Rightarrow> nat" where
  "specPeak correlations firstDrop =
     fold (\<lambda>lag peak. if correlations ! lag > correlations ! peak then lag else peak)
          [firstDrop..<length correlations] firstDrop"

definition specPitch :: "AudioBuffer \<Rightarrow> number" where
  "specPitch audioBuffer =
     (let correlations = correlations_of audioBuffer;
          peak_lag = specPeak correlations (specFirstDrop correlations 0)
      in Math_round (num (sampleRate audioBuffer) / num peak_lag * Fin 10) / Fin 10)"

section \<open>A test signal\<close>

text \<open>
  A decaying pulse train of 100 Hz at 8000 Hz: 240 samples (30 ms), a pulse two samples
  wide every 80 samples, of heights 1, 1/4 and 1/16. \<open>pulseCorrelation\<close> lists the values
  its correlations are shown to have (lemma \<open>pulseTrain_correlation\<close>).
\<close>

definition pulseTrain :: "real list" where
  "pulseTrain = [1, 1] @ replicate 78 0 @ [1 / 4, 1 / 4] @ replicate 78 0
                @ [1 / 16, 1 / 16] @ replicate 78 0"

definition pulseCorrelation :: "nat \<Rightarrow> real" where
  "pulseCorrelation lag =
     (if lag = 0 then 2 else if lag = 1 then 1
      else if lag = 79 \<or> lag = 81 then 1 / 4 else if lag = 80 then 1 / 2 else 0)"

section \<open>Floors of quotients of counts\<close>

lemma maxLag_div: "maxLag_of rate = rate div 60"
  unfolding maxLag_of_def
  using floor_divide_of_nat_eq [of rate 60, where ?'a = real] by simp

lemma comparisonSamples_div: "comparisonSamples_of n = n div 3"
  unfolding comparisonSamples_of_def
  using floor_divide_of_nat_eq [of n 3, where ?'a = real] by simp

lemma windowSize_div: "windowSize_of rate = rate div 50"
proof -
  have "real rate * (2 / 100) = real rate / real 50" by simp
  then show ?thesis
    unfolding windowSize_of_def
    using floor_divide_of_nat_eq [of rate 50, where ?'a = real] by simp
qed

lemma normalizedInterval_div: "normalizedInterval n = (n + 1) div 2 * 2"
proof -
  have e: "real n / 2 + 1 / 2 = real (n + 1) / real 2" by (simp add: field_simps)
  have "\<lfloor>real n / 2 + 1 / 2\<rfloor> = int ((n + 1) div 2)"
    unfolding e by (rule floor_divide_of_nat_eq)
  then show ?thesis
    unfolding normalizedInterval_def by simp
qed

section \<open>The peak lag\<close>

declare firstDropLoop.simps [simp del]

lemma firstDropLoop_bounds:
  "k \<le> firstDropLoop cs k \<and> firstDropLoop cs k \<le> max k (length cs - 1)"
proof (induction cs k rule: firstDropLoop.induct)
  case (1 cs k)
  show ?case
  proof (cases "int k < int (length cs) - 1 \<and> cs ! (k + 1) \<ge> cs ! k")
    case True
    then have "firstDropLoop cs k = firstDropLoop cs (k + 1)"
      by (subst firstDropLoop.simps) simp
    moreover from True have "k + 1 \<le> length cs - 1" by linarith
    ultimately show ?thesis using 1 True by (auto simp: max_def)
  next
    case False
    then have "firstDropLoop cs k = k"
      by (subst firstDropLoop.simps) auto
    then show ?thesis by simp
  qed
qed

lemma fold_pick_bounds:
  fixes c :: "nat \<Rightarrow> nat \<Rightarrow> bool"
  assumes "\<forall>x \<in> set xs. lo \<le> x \<and> x \<le> hi" and "lo \<le> p" and "p \<le> hi"
  shows "lo \<le> fold (\<lambda>i p. if c i p then i else p) xs p
       \<and> fold (\<lambda>i p. if c i p then i else p) xs p \<le> hi"
  using assms by (induction xs arbitrary: p) auto

lemma peakLoop_bounds:
  "fd + 1 \<le> peakLoop cs fd \<and> peakLoop cs fd \<le> max (fd + 1) (length cs - 2)"
  unfolding peakLoop_def
  by (rule fold_pick_bounds) auto

lemma length_correlations: "length (correlations_of b) = sampleRate b div 60"
  by (simp add: correlations_of_def maxLag_div)

lemma peak_arith:
  fixes f n p :: nat
  shows "f \<le> n - 1 \<Longrightarrow> p \<le> max (f + 1) (n - 2) \<Longrightarrow> p \<le> max 1 n"
  by arith

lemma peakIndex_bounds:
  "firstDropLoop (correlations_of b) 0 + 1 \<le> peakIndex_of b
   \<and> peakIndex_of b \<le> max 1 (sampleRate b div 60)"
proof -
  let ?cs = "correlations_of b"
  let ?fd = "firstDropLoop ?cs 0"
  have fd: "?fd \<le> length ?cs - 1" using firstDropLoop_bounds [of 0 ?cs] by simp
  have pk: "?fd + 1 \<le> peakLoop ?cs ?fd \<and> peakLoop ?cs ?fd \<le> max (?fd + 1) (length ?cs - 2)"
    by (rule peakLoop_bounds)
  have len: "length ?cs = sampleRate b div 60" by (rule length_correlations)
  have eq: "peakIndex_of b = peakLoop ?cs ?fd" by (simp add: peakIndex_of_def Let_def)
  have "peakLoop ?cs ?fd \<le> max 1 (length ?cs)"
    using fd pk by (intro peak_arith [of ?fd]) simp_all
  then show ?thesis using pk unfolding eq len by simp
qed

lemma detectPitch_value:
  assumes "0 < peakIndex_of b"
  shows "detectPitch b = Fin (of_int \<lfloor>real (sampleRate b) / real (peakIndex_of b) * 10 + 1 / 2\<rfloor> / 10)"
  using assms by (simp add: detectPitch_def Let_def num_def)

text \<open>
  Claim C10. For every buffer with a positive sample rate, \<open>detectPitch\<close> never divides
  by zero: the peak lag starts at \<open>firstDropIndex + 1\<close> and only moves to larger indices,
  so it is at least 1, and the returned value is a finite, strictly positive number, the
  sample rate divided by the peak lag and rounded to one decimal.
\<close>

theorem detectPitch_finite_positive:
  assumes "0 < sampleRate b"
  shows "firstDropLoop (correlations_of b) 0 + 1 \<le> peakIndex_of b
       \<and> 1 \<le> peakIndex_of b
       \<and> (\<exists>r. detectPitch b = Fin r \<and> 0 < r
              \<and> r = of_int \<lfloor>real (sampleRate b) / real (peakIndex_of b) * 10 + 1 / 2\<rfloor> / 10)"
proof -
  let ?p = "peakIndex_of b" and ?s = "sampleRate b"
  have b: "firstDropLoop (correlations_of b) 0 + 1 \<le> ?p" "?p \<le> max 1 (?s div 60)"
    using peakIndex_bounds [of b] by simp_all
  then have p1: "1 \<le> ?p" by simp
  have "?p \<le> ?s" using b(2) assms by (simp add: max_def split: if_splits)
  then have "real ?p \<le> real ?s" by simp
  then have "1 \<le> real ?s / real ?p" using p1 by (simp add: field_simps)
  then have "1 \<le> real ?s / real ?p * 10 + 1 / 2" by simp
  then have "1 \<le> \<lfloor>real ?s / real ?p * 10 + 1 / 2\<rfloor>" by linarith
  then have pos: "0 < (of_int \<lfloor>real ?s / real ?p * 10 + 1 / 2\<rfloor> / 10 :: real)" by simp
  have "detectPitch b = Fin (of_int \<lfloor>real ?s / real ?p * 10 + 1 / 2\<rfloor> / 10)"
    using p1 by (intro detectPitch_value) simp
  with pos have "\<exists>r. detectPitch b = Fin r \<and> 0 < r
      \<and> r = of_int \<lfloor>real ?s / real ?p * 10 + 1 / 2\<rfloor> / 10"
    by blast
  with b(1) p1 show ?thesis by blast
qed

theorem detectPitch_finite_positive_witness:
  "0 < sampleRate \<lparr>sampleRate = 44100, channel0 = [], otherChannels = []\<rparr>
   \<and> 1 \<le> peakIndex_of \<lparr>sampleRate = 44100, channel0 = [], otherChannels = []\<rparr>
   \<and> (\<exists>r. detectPitch \<lparr>sampleRate = 44100, channel0 = [], otherChannels = []\<rparr> = Fin r
          \<and> 0 < r)"
  using detectPitch_finite_positive [of "\<lparr>sampleRate = 44100, channel0 = [], otherChannels = []\<rparr>"]
  by auto

section \<open>The energy profile\<close>

lemma upt_0_Suc_shift: "[0..<Suc m] = 0 # map Suc [0..<m]"
proof -
  have "[0..<Suc m] = 0 # [Suc 0..<Suc m]" by (rule upt_conv_Cons) simp
  then show ?thesis by (simp only: map_Suc_upt)
qed

lemma div_add_self_Suc:
  fixes m ws :: nat
  shows "0 < ws \<Longrightarrow> (m + ws) div ws = Suc (m div ws)"
  by simp

lemma windows_count_step:
  fixes n i ws :: nat
  assumes "0 < ws" "i < n"
  shows "(n - i + ws - 1) div ws = Suc ((n - (i + ws) + ws - 1) div ws)"
proof (cases "i + ws \<le> n")
  case True
  then have "n - i + ws - 1 = (n - (i + ws) + ws - 1) + ws" using assms by arith
  then have "(n - i + ws - 1) div ws = ((n - (i + ws) + ws - 1) + ws) div ws" by (rule arg_cong)
  also have "\<dots> = Suc ((n - (i + ws) + ws - 1) div ws)" using assms(1) by (rule div_add_self_Suc)
  finally show ?thesis .
next
  case False
  then have a: "n - (i + ws) = 0" by arith
  have "ws \<le> n - i + ws - 1" "n - i + ws - 1 < 2 * ws" using assms False by arith+
  then have "(n - i + ws - 1) div ws = 1"
    by (intro div_nat_eqI) simp_all
  moreover have "(ws - 1) div ws = 0" using assms by simp
  ultimately show ?thesis unfolding a by simp
qed

lemma energyLoop_closed:
  assumes "0 < ws"
  shows "energyLoop cd ws i acc =
         Some (acc @ map (\<lambda>k. windowRms cd (i + k * ws) (min (i + k * ws + ws) (length cd)))
                         [0..<(length cd - i + ws - 1) div ws])"
proof (induction "length cd - i" arbitrary: i acc rule: less_induct)
  case less
  let ?f = "\<lambda>i k. windowRms cd (i + k * ws) (min (i + k * ws + ws) (length cd))"
  show ?case
  proof (cases "i < length cd")
    case True
    let ?M = "(length cd - (i + ws) + ws - 1) div ws"
    have "length cd - (i + ws) < length cd - i" using True assms by arith
    from less [OF this]
    have ih: "energyLoop cd ws (i + ws) (acc @ [?f i 0]) =
          Some ((acc @ [?f i 0]) @ map (?f (i + ws)) [0..<?M])"
      by simp
    have cnt: "(length cd - i + ws - 1) div ws = Suc ?M"
      using assms True by (rule windows_count_step)
    have shift: "map (?f i) [0..<Suc ?M] = ?f i 0 # map (?f (i + ws)) [0..<?M]"
      unfolding upt_0_Suc_shift by (simp add: comp_def add.assoc)
    have "energyLoop cd ws i acc = energyLoop cd ws (i + ws) (acc @ [?f i 0])"
      using True by (subst energyLoop.simps) simp
    also note ih
    finally show ?thesis unfolding cnt shift by simp
  next
    case False
    then have "(length cd - i + ws - 1) div ws = 0" using assms by simp
    moreover have "energyLoop cd ws i acc = Some acc"
      using False by (subst energyLoop.simps) simp
    ultimately show ?thesis by simp
  qed
qed


lemma fold_add_Fin:
  "fold (\<lambda>j acc. acc + Fin (g j)) js (Fin a) = Fin (a + sum_list (map g js))"
  by (induction js arbitrary: a) (simp_all add: add.assoc)

lemma sum_reduce_Fin: "sum_reduce (map Fin rs) = Fin (sum_list rs)"
proof -
  have "fold (\<lambda>val acc. acc + val) (map Fin rs) (Fin a) = Fin (a + sum_list rs)" for a
    by (induction rs arbitrary: a) (simp_all add: add.assoc)
  then show ?thesis by (simp add: sum_reduce_def)
qed

lemma fold_cong_set:
  "(\<And>x a. x \<in> set xs \<Longrightarrow> f x a = g x a) \<Longrightarrow> fold f xs a = fold g xs a"
  by (induction xs arbitrary: a) simp_all

lemma windowRms_Fin:
  assumes "i < limit" "limit \<le> length xs"
  shows "windowRms (map Fin xs) i limit =
         Fin (sqrt ((\<Sum>j\<leftarrow>[i..<limit]. xs ! j * xs ! j) / real (limit - i)))"
proof -
  have "fold (\<lambda>j sum. sum + map Fin xs ! j * map Fin xs ! j) [i..<limit] (Fin 0)
      = fold (\<lambda>j sum. sum + Fin (xs ! j * xs ! j)) [i..<limit] (Fin 0)"
    using assms by (intro fold_cong_set) simp
  also have "\<dots> = Fin (0 + (\<Sum>j\<leftarrow>[i..<limit]. xs ! j * xs ! j))"
    by (rule fold_add_Fin)
  finally have s: "fold (\<lambda>j sum. sum + map Fin xs ! j * map Fin xs ! j) [i..<limit] (Fin 0)
      = Fin (\<Sum>j\<leftarrow>[i..<limit]. xs ! j * xs ! j)" by simp
  have nn: "0 \<le> (\<Sum>j\<leftarrow>[i..<limit]. xs ! j * xs ! j)"
    by (rule sum_list_nonneg) auto
  have "\<not> (\<Sum>j\<leftarrow>[i..<limit]. xs ! j * xs ! j) / real (limit - i) < 0"
    using nn assms by (simp add: not_less divide_nonneg_nonneg)
  then show ?thesis
    using assms unfolding windowRms_def Let_def s num_def by simp
qed

lemma ceiling_div_nat:
  fixes n w :: nat
  assumes "0 < w"
  shows "nat \<lceil>real n / real w\<rceil> = (n + w - 1) div w"
proof -
  let ?k = "(n + w - 1) div w"
  have up: "n + w - 1 < (?k + 1) * w"
    using assms by (metis Suc_eq_plus1 dividend_less_div_times mult.commute add.commute mult_Suc)
  have lo: "?k * w \<le> n + w - 1" by simp
  have a: "real n \<le> real ?k * real w"
  proof -
    have "n \<le> ?k * w" using up assms by (simp add: algebra_simps)
    then show ?thesis by (metis of_nat_le_iff of_nat_mult)
  qed
  have b: "(real ?k - 1) * real w < real n"
  proof (cases "?k = 0")
    case True
    then show ?thesis using assms by (cases "n = 0") (auto simp: div_eq_0_iff)
  next
    case False
    then have "(?k - 1) * w + w \<le> n + w - 1" using lo by (simp add: algebra_simps)
    then have "(?k - 1) * w < n" using assms by arith
    then have "real ((?k - 1) * w) < real n" by (simp only: of_nat_less_iff)
    then show ?thesis using False by (simp add: of_nat_diff)
  qed
  have "\<lceil>real n / real w\<rceil> = int ?k"
    using a b assms by (intro ceiling_unique) (simp_all add: field_simps)
  then show ?thesis by simp
qed


lemma window_start_in_range:
  fixes n w k :: nat
  assumes "0 < w" "k < (n + w - 1) div w"
  shows "k * w < n"
proof -
  have "Suc k \<le> (n + w - 1) div w" using assms(2) by simp
  then have "Suc k * w \<le> (n + w - 1) div w * w" by (rule mult_le_mono1)
  also have "\<dots> \<le> n + w - 1" by simp
  finally have "k * w + w \<le> n + w - 1" by simp
  then show ?thesis using assms(1) by arith
qed

lemma energyProfile_closed:
  assumes "0 < windowSize_of (sampleRate b)"
  shows "energyProfile_of b =
         Some (map (\<lambda>k. windowRms (channel0 b) (k * windowSize_of (sampleRate b))
                          (min (k * windowSize_of (sampleRate b) + windowSize_of (sampleRate b))
                               (length (channel0 b))))
                   [0..<(length (channel0 b) + windowSize_of (sampleRate b) - 1)
                          div windowSize_of (sampleRate b)])"
  unfolding energyProfile_of_def energyLoop_closed [OF assms] by simp

lemma energyProfile_finite:
  assumes "0 < windowSize_of (sampleRate b)" and "channel0 b = map Fin xs"
  shows "windowSize_of (sampleRate b) = sampleRate b * 20 div 1000
       \<and> (\<exists>ep. energyProfile_of b = Some ep
            \<and> length ep = nat \<lceil>real (length xs) / real (windowSize_of (sampleRate b))\<rceil>
            \<and> (\<forall>k < length ep.
                  ep ! k = Fin (sqrt ((\<Sum>j\<leftarrow>[k * windowSize_of (sampleRate b)..<
                                         min (k * windowSize_of (sampleRate b)
                                               + windowSize_of (sampleRate b)) (length xs)].
                                        (xs ! j)\<^sup>2)
                                     / real (min (k * windowSize_of (sampleRate b)
                                                   + windowSize_of (sampleRate b)) (length xs)
                                             - k * windowSize_of (sampleRate b))))
                  \<and> Fin 0 \<le> ep ! k))"
proof -
  let ?w = "windowSize_of (sampleRate b)" and ?n = "length xs"
  let ?m = "(?n + ?w - 1) div ?w"
  let ?ep = "map (\<lambda>k. windowRms (map Fin xs) (k * ?w) (min (k * ?w + ?w) ?n)) [0..<?m]"
  have w: "?w = sampleRate b * 20 div 1000" unfolding windowSize_div by simp
  have ep: "energyProfile_of b = Some ?ep"
    using energyProfile_closed [OF assms(1)] assms(2) by simp
  have len: "length ?ep = nat \<lceil>real ?n / real ?w\<rceil>"
    using ceiling_div_nat [OF assms(1), of ?n] by simp
  have entries: "?ep ! k = Fin (sqrt ((\<Sum>j\<leftarrow>[k * ?w..<min (k * ?w + ?w) ?n]. (xs ! j)\<^sup>2)
                                     / real (min (k * ?w + ?w) ?n - k * ?w)))
                 \<and> Fin 0 \<le> ?ep ! k" if "k < length ?ep" for k
  proof -
    from that have k: "k < ?m" by simp
    then have lt: "k * ?w < ?n" using assms(1) by (intro window_start_in_range)
    then have lim: "k * ?w < min (k * ?w + ?w) ?n" using assms(1) by simp
    have "?ep ! k = windowRms (map Fin xs) (k * ?w) (min (k * ?w + ?w) ?n)"
      using k by simp
    also have "\<dots> = Fin (sqrt ((\<Sum>j\<leftarrow>[k * ?w..<min (k * ?w + ?w) ?n]. xs ! j * xs ! j)
                                     / real (min (k * ?w + ?w) ?n - k * ?w)))"
      using lim by (intro windowRms_Fin) simp_all
    finally have e: "?ep ! k = Fin (sqrt ((\<Sum>j\<leftarrow>[k * ?w..<min (k * ?w + ?w) ?n]. (xs ! j)\<^sup>2)
                                     / real (min (k * ?w + ?w) ?n - k * ?w)))"
      by (simp only: power2_eq_square)
    have "0 \<le> (\<Sum>j\<leftarrow>[k * ?w..<min (k * ?w + ?w) ?n]. (xs ! j)\<^sup>2)"
      by (rule sum_list_nonneg) auto
    then have "0 \<le> sqrt ((\<Sum>j\<leftarrow>[k * ?w..<min (k * ?w + ?w) ?n]. (xs ! j)\<^sup>2)
                                     / real (min (k * ?w + ?w) ?n - k * ?w))"
      by (intro real_sqrt_ge_zero divide_nonneg_nonneg) simp_all
    then show ?thesis unfolding e by simp
  qed
  show ?thesis
    using w ep len entries by blast
qed


text \<open>
  Claim C6. With a window of \<open>floor(sample_rate * 20 / 1000)\<close> samples (at least one), the
  energy profile has \<open>ceil(sample_count / windowSize)\<close> entries; entry \<open>k\<close> is the root of
  the mean square of the samples of window \<open>k\<close>, the mean taken over the samples the
  window really has (the last window may be shorter); every entry is non-negative.
\<close>

theorem energyProfile_shape:
  assumes "0 < windowSize_of (sampleRate b)" and "channel0 b = map Fin xs"
  shows "windowSize_of (sampleRate b) = sampleRate b * 20 div 1000
       \<and> (\<exists>ep. energyProfile_of b = Some ep
            \<and> length ep = nat \<lceil>real (length xs) / real (windowSize_of (sampleRate b))\<rceil>
            \<and> (\<forall>k < length ep.
                  ep ! k = Fin (sqrt ((\<Sum>j\<leftarrow>[k * windowSize_of (sampleRate b)..<
                                         min (k * windowSize_of (sampleRate b)
                                               + windowSize_of (sampleRate b)) (length xs)].
                                        (xs ! j)\<^sup>2)
                                     / real (min (k * windowSize_of (sampleRate b)
                                                   + windowSize_of (sampleRate b)) (length xs)
                                             - k * windowSize_of (sampleRate b))))
                  \<and> Fin 0 \<le> ep ! k))"
  using assms by (rule energyProfile_finite)

theorem energyProfile_shape_witness:
  "0 < windowSize_of (sampleRate \<lparr>sampleRate = 8000, channel0 = map Fin [2, 0, 0, 0], otherChannels = []\<rparr>)
   \<and> (\<exists>ep. energyProfile_of \<lparr>sampleRate = 8000, channel0 = map Fin [2, 0, 0, 0], otherChannels = []\<rparr> = Some ep
         \<and> length ep = 1 \<and> ep ! 0 = Fin 1)"
proof -
  let ?b = "\<lparr>sampleRate = 8000, channel0 = map Fin [2, 0, 0, 0], otherChannels = []\<rparr>"
  have w: "windowSize_of (sampleRate ?b) = 160" by (simp add: windowSize_div)
  have h1: "0 < windowSize_of (sampleRate ?b)" unfolding w by simp
  have h2: "channel0 ?b = map Fin [2, 0, 0, 0]" by simp
  have c: "nat \<lceil>real (length [2, 0, 0, 0 :: real]) / real (160 :: nat)\<rceil> = 1"
    using ceiling_div_nat [of 160 "length [2, 0, 0, 0 :: real]"] by simp
  from energyProfile_shape [OF h1 h2]
  obtain ep where ep: "energyProfile_of ?b = Some ep"
    "length ep = nat \<lceil>real (length [2, 0, 0, 0 :: real]) / real (windowSize_of (sampleRate ?b))\<rceil>"
    "\<forall>k < length ep.
        ep ! k = Fin (sqrt ((\<Sum>j\<leftarrow>[k * windowSize_of (sampleRate ?b)..<
                               min (k * windowSize_of (sampleRate ?b) + windowSize_of (sampleRate ?b))
                                   (length [2, 0, 0, 0 :: real])].
                              ([2, 0, 0, 0 :: real] ! j)\<^sup>2)
                           / real (min (k * windowSize_of (sampleRate ?b) + windowSize_of (sampleRate ?b))
                                       (length [2, 0, 0, 0 :: real])
                                   - k * windowSize_of (sampleRate ?b))))
        \<and> Fin 0 \<le> ep ! k"
    by blast
  have len: "length ep = 1" using ep(2) unfolding w c .
  have "[0..<4] = [0, 1, 2, 3 :: nat]" by (simp add: upt_rec)
  then have "ep ! 0 = Fin 1" using ep(3) len unfolding w by simp
  with h1 ep(1) len show ?thesis by blast
qed

section \<open>Threshold and onsets\<close>

lemma fold_push_filter:
  "fold (\<lambda>i acc. if P i then acc @ [i] else acc) xs acc = acc @ filter P xs"
  by (induction xs arbitrary: acc) simp_all

lemma findOnsets_filter:
  "findOnsets ep thr = filter (isOnset ep thr) [1..<length ep - 1]"
  by (simp add: findOnsets_def fold_push_filter)

lemma findOnsets_sorted: "sorted_wrt (<) (findOnsets ep thr)"
  unfolding findOnsets_filter by (intro sorted_wrt_filter) simp

lemma findOnsets_mem:
  "i \<in> set (findOnsets ep thr) \<longleftrightarrow> 1 \<le> i \<and> i + 2 \<le> length ep \<and> isOnset ep thr i"
  unfolding findOnsets_filter by auto

lemma intervalsOf_exact:
  assumes "k + 1 < length (findOnsets ep thr)"
  shows "0 < intervalsOf (findOnsets ep thr) ! k
       \<and> int (intervalsOf (findOnsets ep thr) ! k)
           = int (findOnsets ep thr ! (k + 1)) - int (findOnsets ep thr ! k)"
proof -
  have "findOnsets ep thr ! k < findOnsets ep thr ! (k + 1)"
    using findOnsets_sorted [of ep thr] assms by (simp add: sorted_wrt_iff_nth_less)
  moreover have "intervalsOf (findOnsets ep thr) ! k
      = findOnsets ep thr ! (k + 1) - findOnsets ep thr ! k"
  proof -
    have "[1..<length (findOnsets ep thr)] ! k = 1 + k"
      using assms by (intro nth_upt) simp
    then show ?thesis using assms by (simp add: intervalsOf_def)
  qed
  ultimately show ?thesis by simp
qed

lemma threshold_Fin:
  assumes "rs \<noteq> []"
  shows "calculateDynamicThreshold (map Fin rs) =
         Fin (sum_list rs / real (length rs)
              + 3 / 2 * sqrt ((\<Sum>r\<leftarrow>rs. (r - sum_list rs / real (length rs))\<^sup>2)
                              / real (length rs)))"
proof -
  let ?n = "real (length rs)" and ?mu = "sum_list rs / real (length rs)"
  have n: "?n \<noteq> 0" using assms by simp
  have mean: "sum_reduce (map Fin rs) / num (length (map Fin rs)) = Fin ?mu"
    using n by (simp add: sum_reduce_Fin num_def)
  have sq: "map (\<lambda>val. (val - Fin ?mu) * (val - Fin ?mu)) (map Fin rs)
          = map Fin (map (\<lambda>r. (r - ?mu)\<^sup>2) rs)"
    by (simp add: minus_number_def power2_eq_square)
  have nn: "0 \<le> (\<Sum>r\<leftarrow>rs. (r - ?mu)\<^sup>2)" by (rule sum_list_nonneg) auto
  have var: "sum_reduce (map Fin (map (\<lambda>r. (r - ?mu)\<^sup>2) rs)) / num (length (map Fin rs))
           = Fin ((\<Sum>r\<leftarrow>rs. (r - ?mu)\<^sup>2) / ?n)"
    using n by (simp only: sum_reduce_Fin length_map num_def) simp
  have "\<not> (\<Sum>r\<leftarrow>rs. (r - ?mu)\<^sup>2) / ?n < 0"
    using nn by (simp add: not_less divide_nonneg_nonneg)
  then show ?thesis
    unfolding calculateDynamicThreshold_def Let_def mean sq var by simp
qed

text \<open>
  Claim C7. An index \<open>i\<close> is reported as an onset iff \<open>1 \<le> i \<le> length - 2\<close> and
  \<open>profile[i] > threshold\<close>, \<open>profile[i] > profile[i-1]\<close>, \<open>profile[i] \<ge> profile[i+1]\<close>;
  the onsets come out strictly increasing, hence without duplicates; the threshold of a
  (finite, non-empty) profile is its mean plus 1.5 times its population standard deviation.
\<close>

theorem onsets_characterised:
  "(\<forall>i. i \<in> set (findOnsets ep (calculateDynamicThreshold ep)) \<longleftrightarrow>
         1 \<le> i \<and> i + 2 \<le> length ep
         \<and> ep ! i > calculateDynamicThreshold ep
         \<and> ep ! i > ep ! (i - 1)
         \<and> ep ! i \<ge> ep ! (i + 1))
   \<and> sorted_wrt (<) (findOnsets ep (calculateDynamicThreshold ep))
   \<and> distinct (findOnsets ep (calculateDynamicThreshold ep))
   \<and> (\<forall>rs. rs \<noteq> [] \<and> ep = map Fin rs \<longrightarrow>
         calculateDynamicThreshold ep =
           Fin (sum_list rs / real (length rs)
                + 3 / 2 * sqrt ((\<Sum>r\<leftarrow>rs. (r - sum_list rs / real (length rs))\<^sup>2)
                                / real (length rs))))"
proof (intro conjI allI impI)
  fix i
  show "i \<in> set (findOnsets ep (calculateDynamicThreshold ep)) \<longleftrightarrow>
         1 \<le> i \<and> i + 2 \<le> length ep
         \<and> ep ! i > calculateDynamicThreshold ep
         \<and> ep ! i > ep ! (i - 1)
         \<and> ep ! i \<ge> ep ! (i + 1)"
    by (simp add: findOnsets_mem isOnset_def)
next
  show "sorted_wrt (<) (findOnsets ep (calculateDynamicThreshold ep))"
    by (rule findOnsets_sorted)
  then show "distinct (findOnsets ep (calculateDynamicThreshold ep))"
    by (simp add: strict_sorted_iff)
next
  fix rs
  assume "rs \<noteq> [] \<and> ep = map Fin rs"
  then show "calculateDynamicThreshold ep =
           Fin (sum_list rs / real (length rs)
                + 3 / 2 * sqrt ((\<Sum>r\<leftarrow>rs. (r - sum_list rs / real (length rs))\<^sup>2)
                                / real (length rs)))"
    using threshold_Fin by blast
qed


lemma sqrt_4_25: "sqrt (4 / 25) = 2 / 5"
  by (rule real_sqrt_unique) (simp_all add: power2_eq_square)

theorem onsets_characterised_witness:
  "calculateDynamicThreshold (map Fin [0, 1, 0, 1, 0, 0, 0, 0, 0, 0]) = Fin (4 / 5)
   \<and> 3 \<in> set (findOnsets (map Fin [0, 1, 0, 1, 0, 0, 0, 0, 0, 0])
                   (calculateDynamicThreshold (map Fin [0, 1, 0, 1, 0, 0, 0, 0, 0, 0])))
   \<and> 2 \<notin> set (findOnsets (map Fin [0, 1, 0, 1, 0, 0, 0, 0, 0, 0])
                   (calculateDynamicThreshold (map Fin [0, 1, 0, 1, 0, 0, 0, 0, 0, 0])))"
proof -
  let ?rs = "[0, 1, 0, 1, 0, 0, 0, 0, 0, 0] :: real list"
  let ?ep = "map Fin ?rs"
  note t = onsets_characterised [of ?ep]
  from t have "?rs \<noteq> [] \<and> ?ep = map Fin ?rs \<longrightarrow>
      calculateDynamicThreshold ?ep =
           Fin (sum_list ?rs / real (length ?rs)
                + 3 / 2 * sqrt ((\<Sum>r\<leftarrow>?rs. (r - sum_list ?rs / real (length ?rs))\<^sup>2)
                                / real (length ?rs)))"
    by blast
  then have thr: "calculateDynamicThreshold ?ep = Fin (4 / 5)"
    by (simp add: power2_eq_square sqrt_4_25)
  from thr have thr': "calculateDynamicThreshold
      [Fin 0, Fin 1, Fin 0, Fin 1, Fin 0, Fin 0, Fin 0, Fin 0, Fin 0, Fin 0] = Fin (4 / 5)"
    by simp
  from t have m: "i \<in> set (findOnsets ?ep (calculateDynamicThreshold ?ep)) \<longleftrightarrow>
         1 \<le> i \<and> i + 2 \<le> length ?ep
         \<and> ?ep ! i > calculateDynamicThreshold ?ep
         \<and> ?ep ! i > ?ep ! (i - 1)
         \<and> ?ep ! i \<ge> ?ep ! (i + 1)" for i
    by blast
  have "3 \<in> set (findOnsets ?ep (calculateDynamicThreshold ?ep))"
    by (subst m) (simp add: thr')
  moreover have "2 \<notin> set (findOnsets ?ep (calculateDynamicThreshold ?ep))"
    by (subst m) (simp add: thr')
  ultimately show ?thesis using thr by blast
qed

section \<open>The interval histogram and its scan\<close>

lemma normalizedInterval_nearest:
  "even (normalizedInterval n) \<and> normalizedInterval n \<le> n + 1 \<and> n \<le> normalizedInterval n"
  unfolding normalizedInterval_div by (auto elim: oddE evenE)

lemma bump_keys: "fst ` set (bump k h) = insert k (fst ` set h)"
proof (induction h)
  case Nil
  show ?case by simp
next
  case (Cons e h)
  obtain k' c where e: "e = (k', c)" by (cases e)
  show ?case unfolding e using Cons by (simp add: insert_commute)
qed

lemma bump_counts_positive:
  "\<forall>e \<in> set h. 0 < snd e \<Longrightarrow> \<forall>e \<in> set (bump k h). 0 < snd e"
proof (induction h)
  case Nil
  show ?case by simp
next
  case (Cons e h)
  obtain k' c where e: "e = (k', c)" by (cases e)
  show ?case using Cons unfolding e by simp
qed

lemma bump_keys_sorted:
  "sorted_wrt (<) (map fst h) \<Longrightarrow> sorted_wrt (<) (map fst (bump k h))"
proof (induction h)
  case Nil
  show ?case by simp
next
  case (Cons e h)
  obtain k' c where e: "e = (k', c)" by (cases e)
  have keys: "fst ` set (bump k h) = insert k (fst ` set h)" by (rule bump_keys)
  show ?case
  proof (cases "k = k' \<or> k < k'")
    case True
    then show ?thesis using Cons.prems unfolding e by auto
  next
    case False
    then have "k' < k" by simp
    then show ?thesis using False Cons keys unfolding e by auto
  qed
qed

lemma bump_map_of:
  "sorted_wrt (<) (map fst h) \<Longrightarrow>
   map_of (bump k h) = (map_of h)(k \<mapsto> (case map_of h k of None \<Rightarrow> 1 | Some c \<Rightarrow> c + 1))"
proof (induction h)
  case Nil
  show ?case by simp
next
  case (Cons e h)
  obtain k' c where e: "e = (k', c)" by (cases e)
  show ?case
  proof (cases "k < k'")
    case True
    then have "\<forall>x \<in> set h. k < fst x" using Cons.prems unfolding e by auto
    then have "map_of h k = None" by (force simp: map_of_eq_None_iff)
    then show ?thesis using True unfolding e by auto
  next
    case False
    then show ?thesis using Cons unfolding e by (auto simp: fun_upd_twist)
  qed
qed

lemma histogramOf_snoc:
  "histogramOf (ivs @ [x]) = bump (normalizedInterval x) (histogramOf ivs)"
  by (simp add: histogramOf_def)

lemma histogramOf_sorted: "sorted_wrt (<) (map fst (histogramOf ivs))"
proof (induction ivs rule: rev_induct)
  case Nil
  show ?case by (simp add: histogramOf_def)
next
  case (snoc x ivs)
  then show ?case unfolding histogramOf_snoc by (rule bump_keys_sorted)
qed

lemma histogramOf_positive: "\<forall>e \<in> set (histogramOf ivs). 0 < snd e"
proof (induction ivs rule: rev_induct)
  case Nil
  show ?case by (simp add: histogramOf_def)
next
  case (snoc x ivs)
  then show ?case unfolding histogramOf_snoc by (rule bump_counts_positive)
qed

lemma histogramOf_counts:
  "map_of (histogramOf ivs) k =
     (if length (filter (\<lambda>i. normalizedInterval i = k) ivs) = 0 then None
      else Some (length (filter (\<lambda>i. normalizedInterval i = k) ivs)))"
proof (induction ivs rule: rev_induct)
  case Nil
  show ?case by (simp add: histogramOf_def)
next
  case (snoc x ivs)
  show ?case
    unfolding histogramOf_snoc bump_map_of [OF histogramOf_sorted]
    using snoc by (auto split: option.splits if_splits)
qed

lemma histogramOf_empty_iff: "histogramOf ivs = [] \<longleftrightarrow> ivs = []"
proof (cases ivs rule: rev_cases)
  case Nil
  then show ?thesis by (simp add: histogramOf_def)
next
  case (snoc ys y)
  have "bump k h \<noteq> []" for k h by (cases h) (auto split: if_splits)
  then show ?thesis unfolding snoc histogramOf_snoc by simp
qed

lemma scan_first_max:
  "(fold scanStep es l = l \<and> (\<forall>e \<in> set es. snd e \<le> snd l))
   \<or> (\<exists>j < length es. es ! j = fold scanStep es l \<and> snd l < snd (fold scanStep es l)
         \<and> (\<forall>j' < j. snd (es ! j') < snd (fold scanStep es l))
         \<and> (\<forall>j' < length es. snd (es ! j') \<le> snd (fold scanStep es l)))"
proof (induction es rule: rev_induct)
  case Nil
  show ?case by simp
next
  case (snoc e es)
  let ?r = "fold scanStep es l"
  have step: "fold scanStep (es @ [e]) l = scanStep e ?r" by simp
  have le: "snd l \<le> snd ?r" using snoc by auto
  have all: "\<forall>j' < length es. snd (es ! j') \<le> snd ?r"
    using snoc by (auto simp: all_set_conv_all_nth)
  show ?case
  proof (cases "snd e > snd ?r")
    case True
    then have r': "scanStep e ?r = e" by (simp add: scanStep_def)
    have "(es @ [e]) ! length es = e" by simp
    moreover have "snd l < snd e" using le True by simp
    moreover have "\<forall>j' < length es. snd ((es @ [e]) ! j') < snd e"
      using all True by (auto simp: nth_append)
    moreover have "\<forall>j' < length (es @ [e]). snd ((es @ [e]) ! j') \<le> snd e"
      using all True by (auto simp: nth_append less_Suc_eq)
    ultimately have "\<exists>j < length (es @ [e]). (es @ [e]) ! j = e \<and> snd l < snd e
         \<and> (\<forall>j' < j. snd ((es @ [e]) ! j') < snd e)
         \<and> (\<forall>j' < length (es @ [e]). snd ((es @ [e]) ! j') \<le> snd e)"
      by (intro exI [of _ "length es"]) simp
    then show ?thesis unfolding step r' by blast
  next
    case False
    then have r': "scanStep e ?r = ?r" by (simp add: scanStep_def)
    from snoc show ?thesis
    proof
      assume a: "?r = l \<and> (\<forall>e \<in> set es. snd e \<le> snd l)"
      then have "\<forall>x \<in> set (es @ [e]). snd x \<le> snd l" using False by auto
      then show ?thesis unfolding step r' using a by blast
    next
      assume "\<exists>j < length es. es ! j = ?r \<and> snd l < snd ?r
         \<and> (\<forall>j' < j. snd (es ! j') < snd ?r)
         \<and> (\<forall>j' < length es. snd (es ! j') \<le> snd ?r)"
      then obtain j where j: "j < length es" "es ! j = ?r" "snd l < snd ?r"
         "\<forall>j' < j. snd (es ! j') < snd ?r" by blast
      have "(es @ [e]) ! j = ?r" using j by (simp add: nth_append)
      moreover have "\<forall>j' < j. snd ((es @ [e]) ! j') < snd ?r"
        using j by (auto simp: nth_append)
      moreover have "\<forall>j' < length (es @ [e]). snd ((es @ [e]) ! j') \<le> snd ?r"
        using all False by (auto simp: nth_append less_Suc_eq)
      ultimately have "\<exists>j < length (es @ [e]). (es @ [e]) ! j = ?r \<and> snd l < snd ?r
         \<and> (\<forall>j' < j. snd ((es @ [e]) ! j') < snd ?r)
         \<and> (\<forall>j' < length (es @ [e]). snd ((es @ [e]) ! j') \<le> snd ?r)"
        using j(1,3) by (intro exI [of _ j]) simp
      then show ?thesis unfolding step r' by blast
    qed
  qed
qed


lemma normalizedInterval_round: "normalizedInterval i = nat (round (real i / 2)) * 2"
  by (simp add: normalizedInterval_def round_def)

lemma mostCommonOf_first_max:
  assumes "es \<noteq> []" and "\<forall>e \<in> set es. 0 < snd e"
  shows "\<exists>j < length es. es ! j = mostCommonOf es
           \<and> (\<forall>j' < length es. snd (es ! j') \<le> snd (mostCommonOf es))
           \<and> (\<forall>j' < j. snd (es ! j') < snd (mostCommonOf es))"
proof -
  from assms obtain e where "e \<in> set es" "0 < snd e" by (cases es) auto
  then have "\<not> (\<forall>e \<in> set es. snd e \<le> snd (0 :: nat, 0 :: nat))" by auto
  with scan_first_max [of es "(0, 0)"] show ?thesis
    unfolding mostCommonOf_def by blast
qed

text \<open>
  Claim C5. Every interval is counted in the bucket \<open>round(interval / 2) * 2\<close>. The scan
  of the buckets keeps the leader unless a bucket has a strictly higher count, so the
  winner has the highest count and every bucket scanned before it has a strictly smaller
  one: among buckets of equal count the one scanned first wins. (The scan lists the
  buckets in ascending order of their key.)
\<close>

theorem histogram_winner:
  "(\<forall>k. map_of (histogramOf intervals) k =
          (if length (filter (\<lambda>i. nat (round (real i / 2)) * 2 = k) intervals) = 0 then None
           else Some (length (filter (\<lambda>i. nat (round (real i / 2)) * 2 = k) intervals))))
   \<and> sorted_wrt (<) (map fst (histogramOf intervals))
   \<and> (\<forall>entry leader. snd entry \<le> snd leader \<longrightarrow> scanStep entry leader = leader)
   \<and> (intervals \<noteq> [] \<longrightarrow>
        (\<exists>j < length (histogramOf intervals).
            histogramOf intervals ! j = mostCommonOf (histogramOf intervals)
            \<and> (\<forall>j' < length (histogramOf intervals).
                  snd (histogramOf intervals ! j') \<le> snd (mostCommonOf (histogramOf intervals)))
            \<and> (\<forall>j' < j.
                  snd (histogramOf intervals ! j') < snd (mostCommonOf (histogramOf intervals)))))"
proof (intro conjI allI impI)
  fix k
  show "map_of (histogramOf intervals) k =
          (if length (filter (\<lambda>i. nat (round (real i / 2)) * 2 = k) intervals) = 0 then None
           else Some (length (filter (\<lambda>i. nat (round (real i / 2)) * 2 = k) intervals)))"
    using histogramOf_counts [of intervals k] unfolding normalizedInterval_round .
next
  show "sorted_wrt (<) (map fst (histogramOf intervals))" by (rule histogramOf_sorted)
next
  fix entry leader :: "nat \<times> nat"
  assume "snd entry \<le> snd leader"
  then show "scanStep entry leader = leader" by (simp add: scanStep_def)
next
  assume "intervals \<noteq> []"
  then have "histogramOf intervals \<noteq> []" by (simp add: histogramOf_empty_iff)
  then show "\<exists>j < length (histogramOf intervals).
            histogramOf intervals ! j = mostCommonOf (histogramOf intervals)
            \<and> (\<forall>j' < length (histogramOf intervals).
                  snd (histogramOf intervals ! j') \<le> snd (mostCommonOf (histogramOf intervals)))
            \<and> (\<forall>j' < j.
                  snd (histogramOf intervals ! j') < snd (mostCommonOf (histogramOf intervals)))"
    using histogramOf_positive by (rule mostCommonOf_first_max)
qed

lemma histogramOf_4_2: "histogramOf [4, 2] = [(2, 1), (4, 1)]"
  by (simp add: histogramOf_def normalizedInterval_div)

theorem histogram_winner_witness:
  "[4, 2] \<noteq> ([] :: nat list)
   \<and> histogramOf [4, 2] = [(2, 1), (4, 1)]
   \<and> mostCommonOf (histogramOf [4, 2]) = (2, 1)
   \<and> scanStep (4, 1) (2, 1) = (2, 1)"
proof -
  note t = histogram_winner [of "[4, 2]"]
  have ne: "[4, 2] \<noteq> ([] :: nat list)" by simp
  from t ne obtain j where j: "j < length (histogramOf [4, 2])"
      "histogramOf [4, 2] ! j = mostCommonOf (histogramOf [4, 2])"
      "\<forall>j' < j. snd (histogramOf [4, 2] ! j') < snd (mostCommonOf (histogramOf [4, 2]))"
    by blast
  have "j = 0"
  proof (rule ccontr)
    assume "j \<noteq> 0"
    then have "j = 1" using j(1) unfolding histogramOf_4_2 by simp
    then show False using j(2,3) unfolding histogramOf_4_2 by force
  qed
  then have w: "mostCommonOf (histogramOf [4, 2]) = (2, 1)"
    using j(2) unfolding histogramOf_4_2 by simp
  from t have "snd (4 :: nat, 1 :: nat) \<le> snd (2 :: nat, 1 :: nat)
      \<longrightarrow> scanStep (4, 1) (2, 1) = (2, 1)" by blast
  then have "scanStep (4, 1) (2, 1) = (2, 1)" by simp
  with ne w show ?thesis using histogramOf_4_2 by blast
qed

section \<open>From the winning bucket to the tempo\<close>

lemma adjustRange_cases:
  "adjustRange b = (if b > Fin 240 then b / Fin 2 else if b < Fin 60 then b * Fin 2 else b)"
  by (cases b) (simp_all add: adjustRange_def Let_def)

lemma adjustRange_in_range:
  assumes "Fin 30 \<le> b" and "b \<le> Fin 480"
  shows "\<exists>r. Math_round (adjustRange b) = Fin (of_int r) \<and> 60 \<le> r \<and> r \<le> 240"
proof -
  from assms obtain x where b: "b = Fin x" and x: "30 \<le> x" "x \<le> 480"
    by (cases b) simp_all
  define y where "y = (if 240 < x then x / 2 else if x < 60 then x * 2 else x)"
  have y: "60 \<le> y" "y \<le> 240" using x by (auto simp: y_def)
  have a: "adjustRange b = Fin y" unfolding adjustRange_cases b y_def by simp
  have "60 \<le> \<lfloor>y + 1 / 2\<rfloor>" "\<lfloor>y + 1 / 2\<rfloor> \<le> 240" using y by linarith+
  then show ?thesis unfolding a by auto
qed

lemma tempoOfProfile_unfold:
  "tempoOfProfile rate ws ep =
     Math_round (adjustRange (rawBpm rate ws
        (fst (mostCommonOf (histogramOf (intervalsOf (findOnsets ep (calculateDynamicThreshold ep))))))))"
  by (simp add: tempoOfProfile_def Let_def)

lemma rawBpm_zero: "0 < rate \<Longrightarrow> rawBpm rate ws 0 = PInf"
  by (simp add: rawBpm_def Let_def num_def inf_of_sign_def)

lemma rawBpm_Fin:
  "0 < rate \<Longrightarrow> 0 < ws \<Longrightarrow> 0 < m \<Longrightarrow>
   rawBpm rate ws m = Fin (60 / (real m * (real ws / real rate)))"
  by (simp add: rawBpm_def Let_def num_def)

lemma tempo_without_intervals:
  assumes "0 < rate" and "length (findOnsets ep (calculateDynamicThreshold ep)) < 2"
  shows "tempoOfProfile rate ws ep = PInf"
proof -
  have "[1..<length (findOnsets ep (calculateDynamicThreshold ep))] = []"
    using assms(2) by simp
  then have "intervalsOf (findOnsets ep (calculateDynamicThreshold ep)) = []"
    by (simp add: intervalsOf_def)
  then have "fst (mostCommonOf (histogramOf
      (intervalsOf (findOnsets ep (calculateDynamicThreshold ep))))) = 0"
    by (simp add: histogramOf_def mostCommonOf_def)
  then show ?thesis
    unfolding tempoOfProfile_unfold using assms(1)
    by (simp add: rawBpm_zero adjustRange_cases)
qed


section \<open>Buffers that are constant on every window\<close>

lemma length_concat_replicate: "length (concat (map (replicate w) vs)) = w * length vs"
  by (induction vs) simp_all

lemma nth_concat_replicate:
  "j < w * length vs \<Longrightarrow> concat (map (replicate w) vs) ! j = vs ! (j div w)"
proof (induction vs arbitrary: j)
  case Nil
  then show ?case by simp
next
  case (Cons v vs)
  show ?case
  proof (cases "j < w")
    case True
    then show ?thesis by (simp add: nth_append)
  next
    case False
    have "0 < w" using Cons.prems by (cases "w = 0") simp_all
    with False have w: "0 < w" "w \<le> j" by simp_all
    have "j - w < w * length vs" using Cons.prems w by simp
    then have ih: "concat (map (replicate w) vs) ! (j - w) = vs ! ((j - w) div w)"
      by (rule Cons.IH)
    have d: "j div w = Suc ((j - w) div w)"
      using w by (metis div_add_self_Suc le_add_diff_inverse2)
    show ?thesis using False ih unfolding d by (simp add: nth_append)
  qed
qed

lemma block_sum:
  fixes vs :: "real list"
  assumes "0 < w" and "k < length vs"
  shows "(\<Sum>j\<leftarrow>[k * w..<k * w + w]. concat (map (replicate w) vs) ! j
                                        * concat (map (replicate w) vs) ! j)
         = real w * (vs ! k * vs ! k)"
proof -
  have "concat (map (replicate w) vs) ! j = vs ! k" if "j \<in> set [k * w..<k * w + w]" for j
  proof -
    from that have j: "k * w \<le> j" "j < k * w + w" by simp_all
    then have "j div w = k" using assms(1)
      by (intro div_nat_eqI) (simp_all add: mult.commute)
    moreover have "j < w * length vs"
    proof -
      have "k * w + w \<le> length vs * w"
        using assms(2) by (metis Suc_leI mult_Suc mult_le_mono1 add.commute)
      then show ?thesis using j by (simp add: mult.commute)
    qed
    ultimately show ?thesis by (simp add: nth_concat_replicate)
  qed
  then have "map (\<lambda>j. concat (map (replicate w) vs) ! j * concat (map (replicate w) vs) ! j)
                 [k * w..<k * w + w]
           = map (\<lambda>j. vs ! k * vs ! k) [k * w..<k * w + w]"
    by (intro map_cong) simp_all
  then have "(\<Sum>j\<leftarrow>[k * w..<k * w + w]. concat (map (replicate w) vs) ! j
                                        * concat (map (replicate w) vs) ! j)
           = (\<Sum>j\<leftarrow>[k * w..<k * w + w]. vs ! k * vs ! k)"
    by (rule arg_cong)
  also have "\<dots> = real (length [k * w..<k * w + w]) * (vs ! k * vs ! k)"
    by (rule sum_list_triv)
  finally show ?thesis by simp
qed

lemma energyProfile_blocks:
  assumes "0 < windowSize_of (sampleRate b)"
    and "channel0 b = map Fin (concat (map (replicate (windowSize_of (sampleRate b))) vs))"
  shows "energyProfile_of b = Some (map (\<lambda>v. Fin \<bar>v\<bar>) vs)"
proof -
  let ?w = "windowSize_of (sampleRate b)"
  let ?xs = "concat (map (replicate ?w) vs)"
  have n: "length ?xs = ?w * length vs" by (rule length_concat_replicate)
  have m: "(length (channel0 b) + ?w - 1) div ?w = length vs"
  proof -
    have "(?w * length vs + ?w - 1) div ?w = length vs"
      using assms(1) by (intro div_nat_eqI) (simp_all add: mult.commute)
    then show ?thesis using n assms(2) by simp
  qed
  have entry: "windowRms (channel0 b) (k * ?w) (min (k * ?w + ?w) (length (channel0 b)))
               = Fin \<bar>vs ! k\<bar>" if "k < length vs" for k
  proof -
    have le: "k * ?w + ?w \<le> length ?xs"
      unfolding n using that by (metis Suc_leI mult_Suc mult_le_mono1 add.commute mult.commute)
    then have mn: "min (k * ?w + ?w) (length (channel0 b)) = k * ?w + ?w"
      using assms(2) by simp
    have "windowRms (map Fin ?xs) (k * ?w) (k * ?w + ?w)
        = Fin (sqrt ((\<Sum>j\<leftarrow>[k * ?w..<k * ?w + ?w]. ?xs ! j * ?xs ! j)
                     / real (k * ?w + ?w - k * ?w)))"
      using assms(1) le by (intro windowRms_Fin) simp_all
    also have "\<dots> = Fin (sqrt ((real ?w * (vs ! k * vs ! k)) / real ?w))"
      using block_sum [OF assms(1) that] by simp
    also have "\<dots> = Fin \<bar>vs ! k\<bar>"
      using assms(1) by (simp add: real_sqrt_mult)
    finally show ?thesis unfolding mn using assms(2) by simp
  qed
  have "map (\<lambda>k. windowRms (channel0 b) (k * ?w) (min (k * ?w + ?w) (length (channel0 b))))
            [0..<length vs] = map (\<lambda>v. Fin \<bar>v\<bar>) vs"
    by (rule nth_equalityI) (simp_all add: entry)
  then show ?thesis
    unfolding energyProfile_closed [OF assms(1)] m by simp
qed


lemma estimateTempo_blocks:
  assumes "0 < windowSize_of (sampleRate b)"
    and "channel0 b = map Fin (concat (map (replicate (windowSize_of (sampleRate b))) vs))"
  shows "estimateTempo b =
         Some (tempoOfProfile (sampleRate b) (windowSize_of (sampleRate b)) (map (\<lambda>v. Fin \<bar>v\<bar>) vs))"
  unfolding estimateTempo_def energyProfile_blocks [OF assms] by simp

section \<open>Silent and flat input\<close>

lemma less_number_irrefl: "\<not> (c :: number) < c"
  by (cases c) simp_all

lemma findOnsets_flat:
  assumes "\<forall>k < length ep. ep ! k = c"
  shows "findOnsets ep thr = []"
proof -
  have "\<not> isOnset ep thr i" if "i \<in> set [1..<length ep - 1]" for i
  proof -
    from that have "1 \<le> i \<and> i < length ep - 1" by simp
    then have "i < length ep" "i - 1 < length ep" by arith+
    then have "ep ! i = c" "ep ! (i - 1) = c" using assms by simp_all
    then show ?thesis by (simp add: isOnset_def less_number_irrefl)
  qed
  then show ?thesis unfolding findOnsets_filter by (simp add: filter_empty_conv)
qed

lemma silent_energyProfile:
  assumes "0 < windowSize_of (sampleRate b)" and "channel0 b = replicate n (Fin 0)"
  shows "\<exists>ep. energyProfile_of b = Some ep \<and> (\<forall>k < length ep. ep ! k = Fin 0)"
proof -
  let ?w = "windowSize_of (sampleRate b)"
  have c: "channel0 b = map Fin (replicate n 0)" using assms(2) by simp
  have z: "(\<Sum>j\<leftarrow>[i..<min l (length (replicate n (0::real)))]. (replicate n (0::real) ! j)\<^sup>2) = 0"
    for i l
  proof -
    have "map (\<lambda>j. (replicate n (0::real) ! j)\<^sup>2) [i..<min l (length (replicate n (0::real)))]
        = map (\<lambda>j. 0) [i..<min l (length (replicate n (0::real)))]"
      by (intro map_cong) simp_all
    then show ?thesis by (simp only: sum_list_0)
  qed
  from energyProfile_finite [OF assms(1) c]
  obtain ep where ep: "energyProfile_of b = Some ep"
    and e: "\<forall>k < length ep.
        ep ! k = Fin (sqrt ((\<Sum>j\<leftarrow>[k * ?w..<min (k * ?w + ?w) (length (replicate n (0::real)))].
                              (replicate n (0::real) ! j)\<^sup>2)
                           / real (min (k * ?w + ?w) (length (replicate n (0::real))) - k * ?w)))
        \<and> Fin 0 \<le> ep ! k"
    by blast
  have "\<forall>k < length ep. ep ! k = Fin 0"
    using e unfolding z by simp
  with ep show ?thesis by blast
qed

lemma silent_tempo:
  assumes "50 \<le> sampleRate b" and "channel0 b = replicate n (Fin 0)"
  shows "estimateTempo b = Some PInf"
proof -
  have w: "0 < windowSize_of (sampleRate b)"
    using assms(1) unfolding windowSize_div by simp
  from silent_energyProfile [OF w assms(2)]
  obtain ep where ep: "energyProfile_of b = Some ep" "\<forall>k < length ep. ep ! k = Fin 0"
    by blast
  have "findOnsets ep (calculateDynamicThreshold ep) = []"
    using ep(2) by (rule findOnsets_flat)
  then have "tempoOfProfile (sampleRate b) (windowSize_of (sampleRate b)) ep = PInf"
    using assms(1) by (intro tempo_without_intervals) simp_all
  then show ?thesis unfolding estimateTempo_def ep(1) by simp
qed

lemma correlationAt_silent:
  "correlationAt (replicate n (Fin 0)) n lag = Fin 0"
proof -
  have "fold (\<lambda>i correlation.
             if i + lag < n
             then correlation + replicate n (Fin 0) ! i * replicate n (Fin 0) ! (i + lag)
             else correlation) is (Fin 0) = Fin 0" if "\<forall>i \<in> set is. i < n" for "is"
    using that by (induction "is") simp_all
  moreover have "\<forall>i \<in> set [0..<n div 3]. i < n"
    using div_le_dividend [of n 3] by auto
  ultimately show ?thesis
    unfolding correlationAt_def comparisonSamples_div by blast
qed

lemma firstDropLoop_flat:
  assumes "\<forall>i < length cs. cs ! i = Fin 0" and "k < length cs"
  shows "firstDropLoop cs k = length cs - 1"
  using assms(2)
proof (induction "length cs - k" arbitrary: k rule: less_induct)
  case less
  show ?case
  proof (cases "k + 1 < length cs")
    case True
    then have "cs ! k = Fin 0" "cs ! (k + 1) = Fin 0" using assms(1) by simp_all
    then have "firstDropLoop cs k = firstDropLoop cs (k + 1)"
      using True by (subst firstDropLoop.simps) simp
    also have "\<dots> = length cs - 1" using True by (intro less) simp_all
    finally show ?thesis .
  next
    case False
    then have "firstDropLoop cs k = k" by (subst firstDropLoop.simps) simp
    then show ?thesis using False less.prems by simp
  qed
qed

lemma silent_peakIndex:
  assumes "60 \<le> sampleRate b" and "channel0 b = replicate n (Fin 0)"
  shows "peakIndex_of b = sampleRate b div 60"
proof -
  let ?cs = "correlations_of b"
  have len: "length ?cs = sampleRate b div 60" by (rule length_correlations)
  have pos: "0 < length ?cs" using assms(1) unfolding len by simp
  have flat: "\<forall>i < length ?cs. ?cs ! i = Fin 0"
    unfolding len by (simp add: correlations_of_def maxLag_div bufferLength_of_def assms(2)
        correlationAt_silent)
  have fd: "firstDropLoop ?cs 0 = length ?cs - 1"
    using flat pos by (rule firstDropLoop_flat)
  have "peakLoop ?cs (length ?cs - 1) = length ?cs"
    using pos by (simp add: peakLoop_def)
  then show ?thesis unfolding peakIndex_of_def Let_def fd len .
qed


section \<open>Click trains at 8000 Hz\<close>

lemma windowSize_8000: "windowSize_of 8000 = 160"
  by (simp add: windowSize_div)

lemma sqrt_9_100: "sqrt (9 / 100) = 3 / 10"
  by (rule real_sqrt_unique) (simp_all add: power2_eq_square)

lemma threshold_one_click:
  "calculateDynamicThreshold [Fin 0, Fin 1, Fin 0, Fin 0, Fin 0, Fin 0, Fin 0, Fin 0, Fin 0, Fin 0]
   = Fin (11 / 20)"
  using threshold_Fin [of "[0, 1, 0, 0, 0, 0, 0, 0, 0, 0]"]
  by (simp add: power2_eq_square sqrt_9_100)

lemma threshold_two_clicks:
  "calculateDynamicThreshold [Fin 0, Fin 1, Fin 0, Fin 1, Fin 0, Fin 0, Fin 0, Fin 0, Fin 0, Fin 0]
   = Fin (4 / 5)"
  using threshold_Fin [of "[0, 1, 0, 1, 0, 0, 0, 0, 0, 0]"]
  by (simp add: power2_eq_square sqrt_4_25)

lemma upt_1_9: "[1..<9] = [1, 2, 3, 4, 5, 6, 7, 8 :: nat]"
  by (simp add: upt_rec)

lemma onsets_one_click:
  "findOnsets [Fin 0, Fin 1, Fin 0, Fin 0, Fin 0, Fin 0, Fin 0, Fin 0, Fin 0, Fin 0] (Fin (11 / 20))
   = [1]"
  by (simp add: findOnsets_filter isOnset_def upt_1_9)

lemma onsets_two_clicks:
  "findOnsets [Fin 0, Fin 1, Fin 0, Fin 1, Fin 0, Fin 0, Fin 0, Fin 0, Fin 0, Fin 0] (Fin (4 / 5))
   = [1, 3]"
  by (simp add: findOnsets_filter isOnset_def upt_1_9)

lemma tempo_two_clicks:
  "tempoOfProfile 8000 160
     [Fin 0, Fin 1, Fin 0, Fin 1, Fin 0, Fin 0, Fin 0, Fin 0, Fin 0, Fin 0] = Fin 750"
proof -
  have "intervalsOf [1, 3] = [2]" by (simp add: intervalsOf_def upt_rec)
  moreover have "histogramOf [2] = [(2, 1)]"
    by (simp add: histogramOf_def normalizedInterval_div)
  moreover have "mostCommonOf [(2, 1)] = (2, 1)"
    by (simp add: mostCommonOf_def scanStep_def)
  moreover have "rawBpm 8000 160 2 = Fin 1500" by (simp add: rawBpm_Fin)
  moreover have "Math_round (adjustRange (Fin 1500)) = Fin 750"
    by (simp add: adjustRange_cases)
  ultimately show ?thesis
    unfolding tempoOfProfile_unfold threshold_two_clicks onsets_two_clicks by simp
qed

text \<open>
  Claim C1, on a second of silence at 44100 Hz. \<open>detectPitch\<close> returns the finite value
  60 (the sample rate over the largest lag), but \<open>estimateTempo\<close> finds no interval,
  divides 60 by zero seconds per beat and returns Infinity.
\<close>

theorem silence_gives_infinite_tempo:
  "detectPitch \<lparr>sampleRate = 44100, channel0 = replicate 44100 (Fin 0), otherChannels = []\<rparr> = Fin 60
   \<and> estimateTempo \<lparr>sampleRate = 44100, channel0 = replicate 44100 (Fin 0), otherChannels = []\<rparr>
       = Some PInf"
proof -
  let ?b = "\<lparr>sampleRate = 44100, channel0 = replicate 44100 (Fin 0), otherChannels = []\<rparr>"
  have "peakIndex_of ?b = sampleRate ?b div 60"
    by (rule silent_peakIndex) simp_all
  then have p: "peakIndex_of ?b = 735" by simp
  have "detectPitch ?b = Fin 60"
    using detectPitch_value [of ?b] unfolding p by simp
  moreover have "estimateTempo ?b = Some PInf"
    by (rule silent_tempo) simp_all
  ultimately show ?thesis by blast
qed

text \<open>
  Claim C2, on a single click: 0.2 s at 8000 Hz, silent but for the second window of
  20 ms. One onset is found, so there is no interval, the histogram is empty, and the
  result is Infinity.
\<close>

theorem one_onset_gives_infinite_tempo:
  "energyProfile_of \<lparr>sampleRate = 8000,
       channel0 = map Fin (concat (map (replicate 160) [0, 1, 0, 0, 0, 0, 0, 0, 0, 0])),
       otherChannels = []\<rparr>
     = Some [Fin 0, Fin 1, Fin 0, Fin 0, Fin 0, Fin 0, Fin 0, Fin 0, Fin 0, Fin 0]
   \<and> findOnsets [Fin 0, Fin 1, Fin 0, Fin 0, Fin 0, Fin 0, Fin 0, Fin 0, Fin 0, Fin 0]
        (calculateDynamicThreshold
           [Fin 0, Fin 1, Fin 0, Fin 0, Fin 0, Fin 0, Fin 0, Fin 0, Fin 0, Fin 0]) = [1]
   \<and> estimateTempo \<lparr>sampleRate = 8000,
       channel0 = map Fin (concat (map (replicate 160) [0, 1, 0, 0, 0, 0, 0, 0, 0, 0])),
       otherChannels = []\<rparr> = Some PInf"
proof -
  let ?b = "\<lparr>sampleRate = 8000,
       channel0 = map Fin (concat (map (replicate 160) [0, 1, 0, 0, 0, 0, 0, 0, 0, 0])),
       otherChannels = []\<rparr>"
  let ?ep = "[Fin 0, Fin 1, Fin 0, Fin 0, Fin 0, Fin 0, Fin 0, Fin 0, Fin 0, Fin 0]"
  have w: "windowSize_of (sampleRate ?b) = 160" by (simp add: windowSize_8000)
  have h1: "0 < windowSize_of (sampleRate ?b)" unfolding w by simp
  have h2: "channel0 ?b = map Fin (concat (map (replicate (windowSize_of (sampleRate ?b)))
               [0, 1, 0, 0, 0, 0, 0, 0, 0, 0]))"
    unfolding w by simp
  have ep: "energyProfile_of ?b = Some ?ep"
    unfolding energyProfile_blocks [OF h1 h2] by simp
  have on: "findOnsets ?ep (calculateDynamicThreshold ?ep) = [1]"
    unfolding threshold_one_click by (rule onsets_one_click)
  have "tempoOfProfile (sampleRate ?b) (windowSize_of (sampleRate ?b)) ?ep = PInf"
    by (rule tempo_without_intervals) (simp_all add: on)
  then have "estimateTempo ?b = Some PInf"
    unfolding estimateTempo_def ep by simp
  with ep on show ?thesis by blast
qed


text \<open>
  Claim C3 fails as stated: two clicks 40 ms apart (0.2 s at 8000 Hz) give the winning
  bucket 2 and the raw tempo 1500, which one halving takes to 750, outside [60, 240].
\<close>

theorem two_clicks_tempo_out_of_range:
  "rawBpm 8000 160 2 = Fin 1500
   \<and> estimateTempo \<lparr>sampleRate = 8000,
       channel0 = map Fin (concat (map (replicate 160) [0, 1, 0, 1, 0, 0, 0, 0, 0, 0])),
       otherChannels = []\<rparr> = Some (Fin 750)
   \<and> \<not> Fin 750 \<le> Fin 240"
proof -
  let ?b = "\<lparr>sampleRate = 8000,
       channel0 = map Fin (concat (map (replicate 160) [0, 1, 0, 1, 0, 0, 0, 0, 0, 0])),
       otherChannels = []\<rparr>"
  have w: "windowSize_of (sampleRate ?b) = 160" by (simp add: windowSize_8000)
  have h1: "0 < windowSize_of (sampleRate ?b)" unfolding w by simp
  have h2: "channel0 ?b = map Fin (concat (map (replicate (windowSize_of (sampleRate ?b)))
               [0, 1, 0, 1, 0, 0, 0, 0, 0, 0]))"
    unfolding w by simp
  have "estimateTempo ?b = Some (Fin 750)"
    unfolding estimateTempo_blocks [OF h1 h2] w using tempo_two_clicks by simp
  moreover have "rawBpm 8000 160 2 = Fin 1500" by (simp add: rawBpm_Fin)
  ultimately show ?thesis by simp
qed

text \<open>
  Claim C3, amended. The tempo is the rounded, range-corrected raw tempo of the winning
  bucket. The correction is one conditional halving followed by one conditional doubling,
  of which at most one applies: a raw tempo above 240 is halved, one below 60 is doubled,
  any other is kept. For a raw tempo between 30 and 480 the result is a whole number
  between 60 and 240. The final rounding is to the nearest integer.
\<close>

theorem range_correction_once:
  "tempoOfProfile rate ws ep =
     Math_round (adjustRange (rawBpm rate ws
        (fst (mostCommonOf (histogramOf (intervalsOf (findOnsets ep (calculateDynamicThreshold ep))))))))
   \<and> adjustRange b = (if b > Fin 240 then b / Fin 2 else if b < Fin 60 then b * Fin 2 else b)
   \<and> (Fin 30 \<le> b \<and> b \<le> Fin 480 \<longrightarrow>
        (\<exists>r. Math_round (adjustRange b) = Fin (of_int r) \<and> 60 \<le> r \<and> r \<le> 240))
   \<and> Math_round (Fin x) = Fin (of_int (round x))"
  using tempoOfProfile_unfold adjustRange_cases adjustRange_in_range
  by (simp add: round_def)

theorem range_correction_once_witness:
  "Fin 30 \<le> Fin 375 \<and> Fin 375 \<le> Fin 480
   \<and> adjustRange (Fin 375) = Fin (375 / 2)
   \<and> (\<exists>r. Math_round (adjustRange (Fin 375)) = Fin (of_int r) \<and> 60 \<le> r \<and> r \<le> 240)"
proof -
  note t = range_correction_once [of _ _ _ "Fin 375"]
  have h: "Fin 30 \<le> Fin 375 \<and> Fin 375 \<le> Fin 480" by simp
  from t have "adjustRange (Fin 375)
      = (if Fin 375 > Fin 240 then Fin 375 / Fin 2
         else if Fin 375 < Fin 60 then Fin 375 * Fin 2 else Fin 375)"
    by blast
  then have a: "adjustRange (Fin 375) = Fin (375 / 2)" by simp
  from t h have "\<exists>r. Math_round (adjustRange (Fin 375)) = Fin (of_int r) \<and> 60 \<le> r \<and> r \<le> 240"
    by blast
  with h a show ?thesis by blast
qed

section \<open>The correlations\<close>

lemma correlation_fold_Fin:
  assumes "\<forall>i \<in> set is. i < length xs"
  shows "fold (\<lambda>i correlation.
             if i + lag < length xs
             then correlation + map Fin xs ! i * map Fin xs ! (i + lag)
             else correlation) is (Fin a)
         = Fin (a + (\<Sum>i\<leftarrow>is. if i + lag < length xs then xs ! i * xs ! (i + lag) else 0))"
  using assms by (induction "is" arbitrary: a) (simp_all add: add.assoc)

lemma correlationAt_Fin:
  "correlationAt (map Fin xs) (length xs) lag
   = Fin (\<Sum>i\<leftarrow>[0..<length xs div 3]. if i + lag < length xs then xs ! i * xs ! (i + lag) else 0)"
proof -
  have "\<forall>i \<in> set [0..<length xs div 3]. i < length xs"
    using div_le_dividend [of "length xs" 3] by auto
  from correlation_fold_Fin [OF this, of lag 0] show ?thesis
    unfolding correlationAt_def comparisonSamples_div by simp
qed

lemma correlations_Fin:
  assumes "channel0 b = map Fin xs" and "lag < sampleRate b div 60"
  shows "correlations_of b ! lag
   = Fin (\<Sum>i\<leftarrow>[0..<length xs div 3]. if i + lag < length xs then xs ! i * xs ! (i + lag) else 0)"
  using assms(2) correlationAt_Fin [of xs lag]
  by (simp add: correlations_of_def maxLag_div bufferLength_of_def assms(1))

text \<open>
  Claim C8. The autocorrelation is computed for every lag below
  \<open>maxLag = floor(sample_rate / 60)\<close>; the correlation at a lag is the sum of
  \<open>sample[i] * sample[i + lag]\<close> over the \<open>floor(length / 3)\<close> first samples \<open>i\<close>
  (a product whose second sample lies beyond the buffer is left out).
\<close>

theorem correlations_spec:
  assumes "channel0 b = map Fin xs"
  shows "maxLag_of (sampleRate b) = sampleRate b div 60
       \<and> comparisonSamples_of (bufferLength_of b) = length xs div 3
       \<and> length (correlations_of b) = maxLag_of (sampleRate b)
       \<and> (\<forall>lag < maxLag_of (sampleRate b).
             correlations_of b ! lag
             = Fin (\<Sum>i\<leftarrow>[0..<comparisonSamples_of (bufferLength_of b)].
                      if i + lag < length xs then xs ! i * xs ! (i + lag) else 0))"
  using correlations_Fin [OF assms]
  by (simp add: maxLag_div comparisonSamples_div bufferLength_of_def assms length_correlations)


theorem correlations_spec_witness:
  "channel0 \<lparr>sampleRate = 180, channel0 = map Fin [1, 2, 3, 4, 5, 6], otherChannels = []\<rparr>
     = map Fin [1, 2, 3, 4, 5, 6]
   \<and> length (correlations_of
         \<lparr>sampleRate = 180, channel0 = map Fin [1, 2, 3, 4, 5, 6], otherChannels = []\<rparr>) = 3
   \<and> correlations_of
         \<lparr>sampleRate = 180, channel0 = map Fin [1, 2, 3, 4, 5, 6], otherChannels = []\<rparr> ! 2
       = Fin 11"
proof -
  let ?b = "\<lparr>sampleRate = 180, channel0 = map Fin [1, 2, 3, 4, 5, 6], otherChannels = []\<rparr>"
  have h: "channel0 ?b = map Fin [1, 2, 3, 4, 5, 6]" by simp
  note t = correlations_spec [OF h]
  have m: "maxLag_of (sampleRate ?b) = 3" using t by simp
  have c: "comparisonSamples_of (bufferLength_of ?b) = 2" using t by simp
  have len: "length (correlations_of ?b) = 3" using t m by simp
  have "[0..<2] = [0, 1 :: nat]" by (simp add: upt_rec)
  moreover from t have "correlations_of ?b ! 2
             = Fin (\<Sum>i\<leftarrow>[0..<comparisonSamples_of (bufferLength_of ?b)].
                      if i + 2 < length [1, 2, 3, 4, 5, 6 :: real]
                      then [1, 2, 3, 4, 5, 6 :: real] ! i * [1, 2, 3, 4, 5, 6] ! (i + 2) else 0)"
    unfolding m by simp
  ultimately have "correlations_of ?b ! 2 = Fin 11" unfolding c by simp
  with h len show ?thesis by blast
qed

section \<open>What the two loops of the peak search compute\<close>

lemma firstDropLoop_walk:
  "(\<forall>j. k \<le> j \<and> j < firstDropLoop cs k \<longrightarrow> cs ! j \<le> cs ! (j + 1))
   \<and> (firstDropLoop cs k + 1 < length cs \<longrightarrow>
        \<not> cs ! firstDropLoop cs k \<le> cs ! (firstDropLoop cs k + 1))"
proof (induction cs k rule: firstDropLoop.induct)
  case (1 cs k)
  show ?case
  proof (cases "int k < int (length cs) - 1 \<and> cs ! (k + 1) \<ge> cs ! k")
    case True
    then have eq: "firstDropLoop cs k = firstDropLoop cs (k + 1)"
      by (subst firstDropLoop.simps) simp
    have ih: "(\<forall>j. k + 1 \<le> j \<and> j < firstDropLoop cs (k + 1) \<longrightarrow> cs ! j \<le> cs ! (j + 1))
       \<and> (firstDropLoop cs (k + 1) + 1 < length cs \<longrightarrow>
        \<not> cs ! firstDropLoop cs (k + 1) \<le> cs ! (firstDropLoop cs (k + 1) + 1))"
      using 1 True by blast
    have "cs ! j \<le> cs ! (j + 1)" if "k \<le> j" "j < firstDropLoop cs (k + 1)" for j
    proof (cases "j = k")
      case True
      then show ?thesis using \<open>int k < int (length cs) - 1 \<and> cs ! (k + 1) \<ge> cs ! k\<close> by simp
    next
      case False
      then have "k + 1 \<le> j" using that(1) by simp
      then show ?thesis using ih that(2) by blast
    qed
    then show ?thesis unfolding eq using ih by blast
  next
    case False
    then have eq: "firstDropLoop cs k = k"
      by (subst firstDropLoop.simps) auto
    have "\<not> cs ! k \<le> cs ! (k + 1)" if "k + 1 < length cs"
    proof -
      from that have "int k < int (length cs) - 1" by linarith
      then show ?thesis using False by blast
    qed
    then show ?thesis unfolding eq by auto
  qed
qed

lemma peak_fold_argmax:
  fixes rs :: "real list"
  assumes "a < b" and "b \<le> length rs"
  shows "a \<le> fold (\<lambda>i p. if map Fin rs ! i > map Fin rs ! p then i else p) [a..<b] a
       \<and> fold (\<lambda>i p. if map Fin rs ! i > map Fin rs ! p then i else p) [a..<b] a < b
       \<and> (\<forall>i. a \<le> i \<and> i < b \<longrightarrow>
             rs ! i \<le> rs ! fold (\<lambda>i p. if map Fin rs ! i > map Fin rs ! p then i else p) [a..<b] a)
       \<and> (\<forall>i. a \<le> i
               \<and> i < fold (\<lambda>i p. if map Fin rs ! i > map Fin rs ! p then i else p) [a..<b] a \<longrightarrow>
             rs ! i < rs ! fold (\<lambda>i p. if map Fin rs ! i > map Fin rs ! p then i else p) [a..<b] a)"
  using assms
proof (induction b)
  case 0
  then show ?case by simp
next
  case (Suc b)
  let ?step = "\<lambda>i p. if map Fin rs ! i > map Fin rs ! p then i else p"
  show ?case
  proof (cases "a = b")
    case True
    then show ?thesis by (auto simp: le_less_Suc_eq)
  next
    case False
    then have ab: "a < b" using Suc.prems by simp
    let ?p = "fold ?step [a..<b] a"
    have ih: "a \<le> ?p" "?p < b" "\<forall>i. a \<le> i \<and> i < b \<longrightarrow> rs ! i \<le> rs ! ?p"
      "\<forall>i. a \<le> i \<and> i < ?p \<longrightarrow> rs ! i < rs ! ?p"
      using Suc.IH [OF ab] Suc.prems by simp_all
    have upt: "[a..<Suc b] = [a..<b] @ [b]" using ab by simp
    have cmp: "(map Fin rs ! b > map Fin rs ! ?p) = (rs ! b > rs ! ?p)"
      using ih(2) Suc.prems by simp
    have f: "fold ?step [a..<Suc b] a = (if rs ! b > rs ! ?p then b else ?p)"
      unfolding upt using cmp by simp
    show ?thesis
    proof (cases "rs ! b > rs ! ?p")
      case True
      have "rs ! i \<le> rs ! b" if "a \<le> i" "i < Suc b" for i
      proof (cases "i = b")
        case False
        then have "i < b" using that by simp
        then have "rs ! i \<le> rs ! ?p" using ih(3) that by blast
        then show ?thesis using True by simp
      qed simp
      moreover have "rs ! i < rs ! b" if "a \<le> i" "i < b" for i
      proof -
        have "rs ! i \<le> rs ! ?p" using ih(3) that by blast
        then show ?thesis using True by simp
      qed
      ultimately show ?thesis unfolding f using True ab by simp
    next
      case False
      have "rs ! i \<le> rs ! ?p" if "a \<le> i" "i < Suc b" for i
      proof (cases "i = b")
        case True
        then show ?thesis using False by simp
      next
        case False
        then have "i < b" using that by simp
        then show ?thesis using ih(3) that by blast
      qed
      then show ?thesis unfolding f using False ih by simp
    qed
  qed
qed

lemma correlations_all_Fin:
  assumes "channel0 b = map Fin xs"
  shows "\<exists>rs. correlations_of b = map Fin rs"
proof -
  let ?rs = "map (\<lambda>lag. \<Sum>i\<leftarrow>[0..<length xs div 3].
                 if i + lag < length xs then xs ! i * xs ! (i + lag) else 0) [0..<sampleRate b div 60]"
  have "correlations_of b = map Fin ?rs"
    by (rule nth_equalityI) (simp_all add: length_correlations correlations_Fin [OF assms])
  then show ?thesis by blast
qed


declare specFirstDrop.simps [simp del]

lemma correlations_five:
  "correlations_of \<lparr>sampleRate = 300, channel0 = map Fin [1, 1 / 2, 0, 1 / 4, 0], otherChannels = []\<rparr>
   = [Fin 1, Fin (1 / 2), Fin 0, Fin (1 / 4), Fin 0]"
proof -
  have "[0..<5] = [0, 1, 2, 3, 4 :: nat]" by (simp add: upt_rec)
  moreover have "[0..<1] = [0 :: nat]" by simp
  ultimately show ?thesis
    by (simp add: correlations_of_def maxLag_div bufferLength_of_def correlationAt_def
        comparisonSamples_div)
qed

text \<open>
  A small example. Five samples 1, 1/2, 0, 1/4, 0 at 300 Hz have the
  correlations 1, 1/2, 0, 1/4, 0. The loop of the source stops at once (the sequence
  falls after lag 0), the search from lag 1 keeps lag 1, and the pitch is 300. Walking
  while the sequence is non-increasing stops at lag 2, the maximum from there is at
  lag 3, and the pitch would be 100.
\<close>

lemma first_drop_walks_upwards:
  "firstDropLoop (correlations_of
      \<lparr>sampleRate = 300, channel0 = map Fin [1, 1 / 2, 0, 1 / 4, 0], otherChannels = []\<rparr>) 0 = 0
   \<and> specFirstDrop (correlations_of
      \<lparr>sampleRate = 300, channel0 = map Fin [1, 1 / 2, 0, 1 / 4, 0], otherChannels = []\<rparr>) 0 = 2
   \<and> detectPitch
      \<lparr>sampleRate = 300, channel0 = map Fin [1, 1 / 2, 0, 1 / 4, 0], otherChannels = []\<rparr> = Fin 300
   \<and> specPitch
      \<lparr>sampleRate = 300, channel0 = map Fin [1, 1 / 2, 0, 1 / 4, 0], otherChannels = []\<rparr> = Fin 100"
proof -
  let ?b = "\<lparr>sampleRate = 300, channel0 = map Fin [1, 1 / 2, 0, 1 / 4, 0], otherChannels = []\<rparr>"
  let ?cs = "[Fin 1, Fin (1 / 2), Fin 0, Fin (1 / 4), Fin 0]"
  have fd: "firstDropLoop ?cs 0 = 0" by (simp add: firstDropLoop.simps)
  have s2: "specFirstDrop ?cs 2 = 2" by (subst specFirstDrop.simps) simp
  then have s2': "specFirstDrop ?cs (Suc (Suc 0)) = 2" by (simp add: numeral_2_eq_2)
  have s1: "specFirstDrop ?cs (Suc 0) = 2" by (subst specFirstDrop.simps) (simp add: s2')
  have sfd: "specFirstDrop ?cs 0 = 2" by (subst specFirstDrop.simps) (simp add: s1)
  have "[1..<4] = [1, 2, 3 :: nat]" by (simp add: upt_rec)
  then have pk: "peakLoop ?cs 0 = 1" by (simp add: peakLoop_def)
  have "[2..<5] = [2, 3, 4 :: nat]" by (simp add: upt_rec)
  then have spk: "specPeak ?cs 2 = 3" by (simp add: specPeak_def)
  have pi: "peakIndex_of ?b = 1"
    unfolding peakIndex_of_def Let_def correlations_five fd by (rule pk)
  have spi: "specPeak (correlations_of ?b) (specFirstDrop (correlations_of ?b) 0) = 3"
    unfolding correlations_five sfd by (rule spk)
  have "detectPitch ?b = Fin 300"
    unfolding detectPitch_def Let_def pi by (simp add: num_def)
  moreover have "specPitch ?b = Fin 100"
    unfolding specPitch_def Let_def spi by (simp add: num_def)
  moreover have "firstDropLoop (correlations_of ?b) 0 = 0"
    unfolding correlations_five by (rule fd)
  moreover have "specFirstDrop (correlations_of ?b) 0 = 2"
    unfolding correlations_five by (rule sfd)
  ultimately show ?thesis by blast
qed


lemma peakLoop_argmax:
  fixes rs :: "real list"
  assumes "fd + 2 < length rs"
  shows "fd + 1 \<le> peakLoop (map Fin rs) fd
       \<and> peakLoop (map Fin rs) fd + 1 < length rs
       \<and> (\<forall>i. fd + 1 \<le> i \<and> i + 1 < length rs \<longrightarrow> rs ! i \<le> rs ! peakLoop (map Fin rs) fd)
       \<and> (\<forall>i. fd + 1 \<le> i \<and> i < peakLoop (map Fin rs) fd \<longrightarrow>
              rs ! i < rs ! peakLoop (map Fin rs) fd)"
proof -
  have a: "fd + 1 < length rs - 1" "length rs - 1 \<le> length rs" using assms by simp_all
  have e: "i + 1 < length rs \<longleftrightarrow> i < length rs - 1" for i by auto
  from peak_fold_argmax [OF a] show ?thesis
    unfolding peakLoop_def e by simp
qed

text \<open>
  What the two loops compute on finite samples: the walk goes on while the correlation
  does not decrease and stops at the first lag whose successor is smaller, or at the last
  lag; the search returns the first lag of maximal correlation among those it visits.
\<close>

lemma peak_search_as_coded:
  assumes "channel0 b = map Fin xs"
  shows "(\<forall>k < firstDropLoop (correlations_of b) 0.
            correlations_of b ! k \<le> correlations_of b ! (k + 1))
       \<and> (firstDropLoop (correlations_of b) 0 + 1 < length (correlations_of b) \<longrightarrow>
            correlations_of b ! (firstDropLoop (correlations_of b) 0 + 1)
              < correlations_of b ! firstDropLoop (correlations_of b) 0)
       \<and> (length (correlations_of b) \<le> firstDropLoop (correlations_of b) 0 + 1 \<longrightarrow>
            firstDropLoop (correlations_of b) 0 = length (correlations_of b) - 1)
       \<and> (firstDropLoop (correlations_of b) 0 + 2 < length (correlations_of b) \<longrightarrow>
            firstDropLoop (correlations_of b) 0 + 1 \<le> peakIndex_of b
            \<and> peakIndex_of b + 1 < length (correlations_of b)
            \<and> (\<forall>i. firstDropLoop (correlations_of b) 0 + 1 \<le> i
                    \<and> i + 1 < length (correlations_of b) \<longrightarrow>
                  correlations_of b ! i \<le> correlations_of b ! peakIndex_of b)
            \<and> (\<forall>i. firstDropLoop (correlations_of b) 0 + 1 \<le> i \<and> i < peakIndex_of b \<longrightarrow>
                  correlations_of b ! i < correlations_of b ! peakIndex_of b))
       \<and> (length (correlations_of b) \<le> firstDropLoop (correlations_of b) 0 + 2 \<longrightarrow>
            peakIndex_of b = firstDropLoop (correlations_of b) 0 + 1)
       \<and> detectPitch b
           = Fin (of_int (round (real (sampleRate b) / real (peakIndex_of b) * 10)) / 10)"
proof -
  from correlations_all_Fin [OF assms]
  obtain rs where cs: "correlations_of b = map Fin rs" by blast
  let ?fd = "firstDropLoop (map Fin rs) 0"
  have p: "peakIndex_of b = peakLoop (map Fin rs) ?fd"
    by (simp add: peakIndex_of_def Let_def cs)
  have walk: "(\<forall>j. 0 \<le> j \<and> j < ?fd \<longrightarrow> map Fin rs ! j \<le> map Fin rs ! (j + 1))"
    "?fd + 1 < length (map Fin rs) \<longrightarrow> \<not> map Fin rs ! ?fd \<le> map Fin rs ! (?fd + 1)"
    using firstDropLoop_walk [of 0 "map Fin rs"] by blast+
  have bnd: "?fd \<le> length rs - 1"
    using firstDropLoop_bounds [of 0 "map Fin rs"] by simp
  have c1: "\<forall>k < ?fd. map Fin rs ! k \<le> map Fin rs ! (k + 1)"
    using walk(1) by simp
  have c2: "?fd + 1 < length (map Fin rs) \<longrightarrow> map Fin rs ! (?fd + 1) < map Fin rs ! ?fd"
    using walk(2) by (auto simp: not_le)
  have c3: "length (map Fin rs) \<le> ?fd + 1 \<longrightarrow> ?fd = length (map Fin rs) - 1"
    using bnd by auto
  have c4: "?fd + 2 < length (map Fin rs) \<longrightarrow>
            ?fd + 1 \<le> peakLoop (map Fin rs) ?fd
            \<and> peakLoop (map Fin rs) ?fd + 1 < length (map Fin rs)
            \<and> (\<forall>i. ?fd + 1 \<le> i \<and> i + 1 < length (map Fin rs) \<longrightarrow>
                  map Fin rs ! i \<le> map Fin rs ! peakLoop (map Fin rs) ?fd)
            \<and> (\<forall>i. ?fd + 1 \<le> i \<and> i < peakLoop (map Fin rs) ?fd \<longrightarrow>
                  map Fin rs ! i < map Fin rs ! peakLoop (map Fin rs) ?fd)"
  proof
    assume "?fd + 2 < length (map Fin rs)"
    then have l: "?fd + 2 < length rs" by simp
    note a = peakLoop_argmax [OF l]
    from a have pl: "peakLoop (map Fin rs) ?fd < length rs" by simp
    show "?fd + 1 \<le> peakLoop (map Fin rs) ?fd
            \<and> peakLoop (map Fin rs) ?fd + 1 < length (map Fin rs)
            \<and> (\<forall>i. ?fd + 1 \<le> i \<and> i + 1 < length (map Fin rs) \<longrightarrow>
                  map Fin rs ! i \<le> map Fin rs ! peakLoop (map Fin rs) ?fd)
            \<and> (\<forall>i. ?fd + 1 \<le> i \<and> i < peakLoop (map Fin rs) ?fd \<longrightarrow>
                  map Fin rs ! i < map Fin rs ! peakLoop (map Fin rs) ?fd)"
      using a pl by auto
  qed
  have c5: "length (map Fin rs) \<le> ?fd + 2 \<longrightarrow> peakLoop (map Fin rs) ?fd = ?fd + 1"
    by (simp add: peakLoop_def)
  have "0 < peakIndex_of b" using peakIndex_bounds [of b] by simp
  then have c6: "detectPitch b
           = Fin (of_int (round (real (sampleRate b) / real (peakIndex_of b) * 10)) / 10)"
    unfolding round_def by (rule detectPitch_value)
  show ?thesis
    unfolding cs p [unfolded cs]
    using c1 c2 c3 c4 c5 c6 [unfolded p] by blast
qed


lemma correlations_six:
  "correlations_of \<lparr>sampleRate = 360, channel0 = map Fin [1, 0, 1 / 2, 3 / 4, 0, 0], otherChannels = []\<rparr>
   = [Fin 1, Fin 0, Fin (1 / 2), Fin (3 / 4), Fin 0, Fin 0]"
proof -
  have "[0..<6] = [0, 1, 2, 3, 4, 5 :: nat]" by (simp add: upt_rec)
  moreover have "[0..<2] = [0, 1 :: nat]" by (simp add: upt_rec)
  ultimately show ?thesis
    by (simp add: correlations_of_def maxLag_div bufferLength_of_def correlationAt_def
        comparisonSamples_div)
qed

lemma peak_search_six_samples:
  "channel0 \<lparr>sampleRate = 360, channel0 = map Fin [1, 0, 1 / 2, 3 / 4, 0, 0], otherChannels = []\<rparr>
     = map Fin [1, 0, 1 / 2, 3 / 4, 0, 0]
   \<and> firstDropLoop (correlations_of
        \<lparr>sampleRate = 360, channel0 = map Fin [1, 0, 1 / 2, 3 / 4, 0, 0], otherChannels = []\<rparr>) 0 = 0
   \<and> peakIndex_of
        \<lparr>sampleRate = 360, channel0 = map Fin [1, 0, 1 / 2, 3 / 4, 0, 0], otherChannels = []\<rparr> = 3
   \<and> detectPitch
        \<lparr>sampleRate = 360, channel0 = map Fin [1, 0, 1 / 2, 3 / 4, 0, 0], otherChannels = []\<rparr>
       = Fin 120"
proof -
  let ?b = "\<lparr>sampleRate = 360, channel0 = map Fin [1, 0, 1 / 2, 3 / 4, 0, 0], otherChannels = []\<rparr>"
  let ?cs = "[Fin 1, Fin 0, Fin (1 / 2), Fin (3 / 4), Fin 0, Fin 0]"
  have h: "channel0 ?b = map Fin [1, 0, 1 / 2, 3 / 4, 0, 0]" by simp
  have fd': "firstDropLoop ?cs 0 = 0" by (simp add: firstDropLoop.simps)
  have fd: "firstDropLoop (correlations_of ?b) 0 = 0"
    unfolding correlations_six by (rule fd')
  note t = peak_search_as_coded [OF h, unfolded correlations_six fd']
  have "(0::nat) + 2 < length ?cs" by simp
  with t have p: "peakIndex_of ?b + 1 < length ?cs"
    and m: "\<forall>i. 0 + 1 \<le> i \<and> i + 1 < length ?cs \<longrightarrow> ?cs ! i \<le> ?cs ! peakIndex_of ?b"
    and lo: "0 + 1 \<le> peakIndex_of ?b"
    by blast+
  have m3: "?cs ! 3 \<le> ?cs ! peakIndex_of ?b" by (rule m [rule_format]) simp
  from p lo have "peakIndex_of ?b \<in> {1, 2, 3, 4}" by auto
  then have p3: "peakIndex_of ?b = 3" using m3 by auto
  from t have "detectPitch ?b
      = Fin (of_int (round (real (sampleRate ?b) / real (peakIndex_of ?b) * 10)) / 10)"
    by blast
  then have "detectPitch ?b = Fin 120" unfolding p3 by (simp add: round_def)
  with h fd p3 show ?thesis by blast
qed

section \<open>A window of zero samples\<close>

lemma energyLoop_returns_only_if_it_advances:
  assumes "energyLoop cd ws i acc = Some ep"
  shows "\<not> (ws = 0 \<and> i < length cd)"
proof (rule energyLoop.raw_induct
    [where P = "\<lambda>cd ws i acc ep. \<not> (ws = 0 \<and> i < length cd)", OF _ assms])
  fix f :: "number list \<Rightarrow> nat \<Rightarrow> nat \<Rightarrow> number list \<Rightarrow> number list option"
  fix cd' ws' i' acc' ep'
  assume ih: "\<And>cd ws i acc ep. f cd ws i acc = Some ep \<Longrightarrow> \<not> (ws = 0 \<and> i < length cd)"
  assume r: "(if i' < length cd'
      then f cd' ws' (i' + ws') (acc' @ [windowRms cd' i' (min (i' + ws') (length cd'))])
      else Some acc') = Some ep'"
  show "\<not> (ws' = 0 \<and> i' < length cd')"
  proof
    assume z: "ws' = 0 \<and> i' < length cd'"
    then have "f cd' ws' (i' + ws') (acc' @ [windowRms cd' i' (min (i' + ws') (length cd'))])
        = Some ep'"
      using r by simp
    from ih [OF this] show False using z by simp
  qed
qed

lemma estimateTempo_never_returns:
  assumes "sampleRate b < 50" and "channel0 b \<noteq> []"
  shows "estimateTempo b = None"
proof -
  have w: "windowSize_of (sampleRate b) = 0"
    using assms(1) unfolding windowSize_div by simp
  have "energyProfile_of b = None"
  proof (cases "energyProfile_of b")
    case (Some ep)
    then have "\<not> (windowSize_of (sampleRate b) = 0 \<and> 0 < length (channel0 b))"
      unfolding energyProfile_of_def by (rule energyLoop_returns_only_if_it_advances)
    then show ?thesis using w assms(2) by simp
  qed simp
  then show ?thesis by (simp add: estimateTempo_def)
qed

section \<open>A decaying pulse train\<close>

lemma pulseTrain_length: "length pulseTrain = 240"
  by (simp add: pulseTrain_def)

lemma pulseTrain_nth:
  assumes "j < 160"
  shows "pulseTrain ! j = (if j < 2 then 1 else if j = 80 \<or> j = 81 then 1 / 4 else 0)"
proof -
  consider "j < 2" | "2 \<le> j \<and> j < 80" | "j = 80" | "j = 81" | "82 \<le> j \<and> j < 160"
    using assms by linarith
  then show ?thesis
  proof cases
    case 1
    then have "j = 0 \<or> j = 1" by auto
    then show ?thesis by (auto simp: pulseTrain_def)
  next
    case 2
    then have "j - 2 < 78" by linarith
    then show ?thesis using 2 by (simp add: pulseTrain_def nth_append)
  next
    case 3
    then show ?thesis by (simp add: pulseTrain_def nth_append)
  next
    case 4
    then show ?thesis by (simp add: pulseTrain_def nth_append)
  next
    case 5
    then have "j - 2 - 78 - 2 < 78" "\<not> j < 2" "\<not> j - 2 < 78" "\<not> j - 2 - 78 < 2" by linarith+
    then show ?thesis using 5 by (simp add: pulseTrain_def nth_append)
  qed
qed



lemma sum_first_two:
  fixes f :: "nat \<Rightarrow> real"
  assumes "2 \<le> m" and "\<forall>i. 2 \<le> i \<and> i < m \<longrightarrow> f i = 0"
  shows "(\<Sum>i\<leftarrow>[0..<m]. f i) = f 0 + f 1"
proof -
  have "[0..<m] = [0..<2] @ [2..<m]" using assms(1) by (metis upt_add_eq_append le0 le_add_diff_inverse)
  moreover have "[0..<2] = [0, 1 :: nat]" by (simp add: upt_rec)
  moreover have "map f [2..<m] = map (\<lambda>i. 0) [2..<m]"
    using assms(2) by (intro map_cong) simp_all
  then have "(\<Sum>i\<leftarrow>[2..<m]. f i) = 0" by (simp only: sum_list_0)
  ultimately show ?thesis by simp
qed

lemma pulseTrain_correlation:
  assumes "lag < 133"
  shows "correlations_of \<lparr>sampleRate = 8000, channel0 = map Fin pulseTrain, otherChannels = []\<rparr> ! lag
         = Fin (pulseCorrelation lag)"
proof -
  let ?b = "\<lparr>sampleRate = 8000, channel0 = map Fin pulseTrain, otherChannels = []\<rparr>"
  let ?f = "\<lambda>i. if i + lag < length pulseTrain then pulseTrain ! i * pulseTrain ! (i + lag) else 0"
  have "correlations_of ?b ! lag = Fin (\<Sum>i\<leftarrow>[0..<length pulseTrain div 3]. ?f i)"
    using assms by (intro correlations_Fin) simp_all
  also have "(\<Sum>i\<leftarrow>[0..<length pulseTrain div 3]. ?f i) = ?f 0 + ?f 1"
    by (rule sum_first_two) (simp_all add: pulseTrain_length pulseTrain_nth)
  also have "?f 0 + ?f 1 = pulseTrain ! lag + pulseTrain ! (lag + 1)"
    using assms by (simp add: pulseTrain_length pulseTrain_nth)
  also have "\<dots> = pulseCorrelation lag"
    using assms by (simp add: pulseTrain_nth pulseCorrelation_def)
  finally show ?thesis .
qed

lemma pulseTrain_correlations:
  "correlations_of \<lparr>sampleRate = 8000, channel0 = map Fin pulseTrain, otherChannels = []\<rparr>
   = map (\<lambda>lag. Fin (pulseCorrelation lag)) [0..<133]"
  by (rule nth_equalityI) (simp_all add: length_correlations pulseTrain_correlation)


lemma fold_pick_keeps:
  fixes cs :: "number list"
  assumes "\<forall>i \<in> set is. \<not> cs ! i > cs ! p"
  shows "fold (\<lambda>i p. if cs ! i > cs ! p then i else p) is p = p"
  using assms by (induction "is") simp_all

lemma specFirstDrop_walk:
  assumes "k \<le> m" and "m + 1 < length cs"
    and "\<forall>j. k \<le> j \<and> j < m \<longrightarrow> cs ! (j + 1) \<le> cs ! j"
    and "\<not> cs ! (m + 1) \<le> cs ! m"
  shows "specFirstDrop cs k = m"
  using assms(1,3)
proof (induction "m - k" arbitrary: k)
  case 0
  then have "k = m" by simp
  then show ?case using assms(4) by (subst specFirstDrop.simps) simp
next
  case (Suc d)
  then have lt: "k < m" by simp
  then have "cs ! (k + 1) \<le> cs ! k" using Suc.prems by simp
  then have "specFirstDrop cs k = specFirstDrop cs (k + 1)"
    using lt assms(2) by (subst specFirstDrop.simps) simp
  also have "\<dots> = m" using Suc lt by (intro Suc.hyps(1)) simp_all
  finally show ?case .
qed

lemma pulseCorrelation_bounds:
  "1 \<le> lag \<Longrightarrow> pulseCorrelation lag \<le> 1" "81 \<le> lag \<Longrightarrow> pulseCorrelation lag \<le> 1 / 2"
  by (simp_all add: pulseCorrelation_def)

text \<open>
  Claim C4, on a 100 Hz pulse train: 30 ms at 8000 Hz, pulses two samples wide every
  80 samples, of heights 1, 1/4 and 1/16. The correlations are 2, 1, then 0 up to lag 78,
  then 1/4, 1/2, 1/4 at lags 79 to 81, then 0. The loop of the source stops at lag 0,
  where the sequence first falls; the search from lag 1 keeps lag 1, a point on the
  initial fall, and the pitch returned is the sample rate, 8000 Hz. The walk of the claim
  goes down the fall to lag 78, finds the peak at lag 80, and gives 100 Hz.
\<close>

theorem pulse_train_pitch_is_sample_rate:
  "firstDropLoop (correlations_of
       \<lparr>sampleRate = 8000, channel0 = map Fin pulseTrain, otherChannels = []\<rparr>) 0 = 0
   \<and> peakIndex_of \<lparr>sampleRate = 8000, channel0 = map Fin pulseTrain, otherChannels = []\<rparr> = 1
   \<and> detectPitch \<lparr>sampleRate = 8000, channel0 = map Fin pulseTrain, otherChannels = []\<rparr>
       = Fin 8000
   \<and> specFirstDrop (correlations_of
       \<lparr>sampleRate = 8000, channel0 = map Fin pulseTrain, otherChannels = []\<rparr>) 0 = 78
   \<and> specPeak (correlations_of
       \<lparr>sampleRate = 8000, channel0 = map Fin pulseTrain, otherChannels = []\<rparr>) 78 = 80
   \<and> specPitch \<lparr>sampleRate = 8000, channel0 = map Fin pulseTrain, otherChannels = []\<rparr>
       = Fin 100"
proof -
  let ?b = "\<lparr>sampleRate = 8000, channel0 = map Fin pulseTrain, otherChannels = []\<rparr>"
  let ?cs = "map (\<lambda>lag. Fin (pulseCorrelation lag)) [0..<133]"
  have nth: "?cs ! i = Fin (pulseCorrelation i)" if "i < 133" for i
    using that by simp
  have fd: "firstDropLoop ?cs 0 = 0"
    by (subst firstDropLoop.simps) (simp add: pulseCorrelation_def)
  have "\<forall>i \<in> set [0 + 1..<length ?cs - 1]. \<not> ?cs ! i > ?cs ! (0 + 1)"
  proof
    fix i assume "i \<in> set [0 + 1..<length ?cs - 1]"
    then have i: "1 \<le> i" "i < 133" by simp_all
    have "pulseCorrelation i \<le> 1" using i(1) by (rule pulseCorrelation_bounds)
    moreover have "pulseCorrelation 1 = 1" by (simp add: pulseCorrelation_def)
    ultimately show "\<not> ?cs ! i > ?cs ! (0 + 1)" using i(2) by (simp add: nth)
  qed
  then have "peakLoop ?cs 0 = 0 + 1" unfolding peakLoop_def by (rule fold_pick_keeps)
  then have pk: "peakLoop ?cs 0 = 1" by simp
  have pi: "peakIndex_of ?b = 1"
    unfolding peakIndex_of_def Let_def pulseTrain_correlations fd by (rule pk)
  have dp: "detectPitch ?b = Fin 8000"
    unfolding detectPitch_def Let_def pi by (simp add: num_def)
  have sfd: "specFirstDrop ?cs 0 = 78"
  proof (rule specFirstDrop_walk)
    show "(0::nat) \<le> 78" by simp
    show "78 + 1 < length ?cs" by simp
    show "\<forall>j. 0 \<le> j \<and> j < 78 \<longrightarrow> ?cs ! (j + 1) \<le> ?cs ! j"
      by (simp add: pulseCorrelation_def)
    show "\<not> ?cs ! (78 + 1) \<le> ?cs ! 78"
      by (simp add: pulseCorrelation_def)
  qed
  have upt: "[78..<133] = [78, 79, 80] @ [81..<133]"
    by (simp add: upt_rec [of 78] upt_rec [of 79] upt_rec [of 80])
  have "\<forall>i \<in> set [81..<133]. \<not> ?cs ! i > ?cs ! 80"
  proof
    fix i assume "i \<in> set [81..<133]"
    then have "81 \<le> i \<and> i < 133" by (simp only: set_upt atLeastLessThan_iff)
    then have i: "81 \<le> i" "i < 133" by blast+
    have "pulseCorrelation i \<le> 1 / 2" using i(1) by (rule pulseCorrelation_bounds)
    moreover have "pulseCorrelation 80 = 1 / 2" by (simp add: pulseCorrelation_def)
    ultimately show "\<not> ?cs ! i > ?cs ! 80" using i(2) by (simp add: nth)
  qed
  then have keep: "fold (\<lambda>lag peak. if ?cs ! lag > ?cs ! peak then lag else peak) [81..<133] 80 = 80"
    by (rule fold_pick_keeps)
  have "fold (\<lambda>lag peak. if ?cs ! lag > ?cs ! peak then lag else peak) [78, 79, 80] 78 = 80"
    by (simp add: pulseCorrelation_def)
  then have three: "fold (\<lambda>lag peak. if ?cs ! lag > ?cs ! peak then lag else peak) [78, 79, 80] 78 = 80" .
  have len: "length ?cs = 133" by simp
  have "specPeak ?cs 78
      = fold (\<lambda>lag peak. if ?cs ! lag > ?cs ! peak then lag else peak) ([78, 79, 80] @ [81..<133]) 78"
    unfolding specPeak_def len upt ..
  also have "\<dots> = fold (\<lambda>lag peak. if ?cs ! lag > ?cs ! peak then lag else peak) [81..<133]
        (fold (\<lambda>lag peak. if ?cs ! lag > ?cs ! peak then lag else peak) [78, 79, 80] 78)"
    by (simp only: fold_append comp_apply)
  also have "\<dots> = 80" unfolding three by (rule keep)
  finally have spk: "specPeak ?cs 78 = 80" .
  have sp: "specPitch ?b = Fin 100"
    unfolding specPitch_def Let_def pulseTrain_correlations sfd spk by (simp add: num_def)
  show ?thesis
    unfolding pulseTrain_correlations by (intro conjI) (fact fd pi dp sfd spk sp)+
qed

end
